theory Spec2Isabelle
  imports Main
begin

section \<open>Python 2 byte strings\<close>

text \<open>
  The sources are Python 2 (\<^verbatim>\<open>iteritems\<close>, \<^verbatim>\<open>translate(None, ...)\<close>), so a
  \<^verbatim>\<open>str\<close> is a sequence of bytes: a \<^typ>\<open>string\<close>. The backslash cannot be written
  inside a string literal and is named here.
\<close>

abbreviation BSL :: char where
  "BSL \<equiv> CHR 0x5C"

definition upper_chars :: string where
  "upper_chars = ''ABCDEFGHIJKLMNOPQRSTUVWXYZ''"

definition lower_chars :: string where
  "lower_chars = ''abcdefghijklmnopqrstuvwxyz''"

text \<open>\<^verbatim>\<open>c.isalpha()\<close>, \<^verbatim>\<open>c.isspace()\<close> and \<^verbatim>\<open>c.lower()\<close> of one byte, in the C locale.\<close>

definition isalpha :: "char \<Rightarrow> bool" where
  "isalpha c = (c \<in> set (upper_chars @ lower_chars))"

definition isspace :: "char \<Rightarrow> bool" where
  "isspace c = (c \<in> set [CHR 0x20, CHR 0x09, CHR 0x0A, CHR 0x0B, CHR 0x0C, CHR 0x0D])"

definition lower_char :: "char \<Rightarrow> char" where
  "lower_char c = (case map_of (zip upper_chars lower_chars) c of None \<Rightarrow> c | Some d \<Rightarrow> d)"

text \<open>\<^verbatim>\<open>s.lower()\<close>\<close>

definition lower :: "string \<Rightarrow> string" where
  "lower s = map lower_char s"

text \<open>\<^verbatim>\<open>s.lstrip()\<close>, \<^verbatim>\<open>s.rstrip()\<close>, \<^verbatim>\<open>s.strip()\<close>: whitespace removed at the ends.\<close>

definition lstrip :: "string \<Rightarrow> string" where
  "lstrip s = dropWhile isspace s"

definition rstrip :: "string \<Rightarrow> string" where
  "rstrip s = rev (dropWhile isspace (rev s))"

definition strip :: "string \<Rightarrow> string" where
  "strip s = rstrip (lstrip s)"

text \<open>\<^verbatim>\<open>s.rstrip(chars)\<close>: trailing characters of \<open>chars\<close> removed.\<close>

definition rstrip_chars :: "string \<Rightarrow> string \<Rightarrow> string" where
  "rstrip_chars s chars = rev (dropWhile (\<lambda>c. c \<in> set chars) (rev s))"

text \<open>\<^verbatim>\<open>s.startswith(p)\<close> and \<^verbatim>\<open>s.endswith(p)\<close>\<close>

definition startswith :: "string \<Rightarrow> string \<Rightarrow> bool" where
  "startswith s p = (take (length p) s = p)"

definition endswith :: "string \<Rightarrow> string \<Rightarrow> bool" where
  "endswith s p = (length p \<le> length s \<and> drop (length s - length p) s = p)"

text \<open>
  \<^verbatim>\<open>s[start:end]\<close> with Python's rules: \<^verbatim>\<open>None\<close> is the end of the string, a negative
  offset counts from the end, and every offset is clipped to the string, so no slice raises.
\<close>

definition clip :: "nat \<Rightarrow> int \<Rightarrow> nat" where
  "clip n i = (if i < 0 then nat (int n + i) else min (nat i) n)"

definition slice :: "string \<Rightarrow> int \<Rightarrow> int option \<Rightarrow> string" where
  "slice s i j =
     (let lo = clip (length s) i;
          hi = (case j of None \<Rightarrow> length s | Some e \<Rightarrow> clip (length s) e)
      in take (hi - lo) (drop lo s))"

text \<open>\<^verbatim>\<open>needle in s\<close>\<close>

fun contains :: "string \<Rightarrow> string \<Rightarrow> bool" where
  "contains [] needle = (needle = [])"
| "contains (c # cs) needle = (startswith (c # cs) needle \<or> contains cs needle)"

text \<open>\<^verbatim>\<open>s.split()\<close>: the maximal runs of characters that are not whitespace.\<close>

fun split_loop :: "string \<Rightarrow> string \<Rightarrow> string list" where
  "split_loop cur [] = (if cur = [] then [] else [cur])"
| "split_loop cur (c # cs) =
     (if isspace c then (if cur = [] then split_loop [] cs else cur # split_loop [] cs)
      else split_loop (cur @ [c]) cs)"

definition str_split :: "string \<Rightarrow> string list" where
  "str_split s = split_loop [] s"

text \<open>\<^verbatim>\<open>s.split(sep)\<close> for a separator of one character.\<close>

fun split_on_loop :: "char \<Rightarrow> string \<Rightarrow> string \<Rightarrow> string list" where
  "split_on_loop sep cur [] = [cur]"
| "split_on_loop sep cur (c # cs) =
     (if c = sep then cur # split_on_loop sep [] cs else split_on_loop sep (cur @ [c]) cs)"

definition str_split_on :: "string \<Rightarrow> char \<Rightarrow> string list" where
  "str_split_on s sep = split_on_loop sep [] s"

section \<open>Errors\<close>

text \<open>
  The exceptions of the program. \<open>FormatError\<close> is the error kind that the spec names; no
  statement of the sources raises it, and no definition below returns it.
\<close>

datatype error = FormatError | AttributeError | KeyError | IndexError | ValueError

text \<open>\<^verbatim>\<open>s.index(sub)\<close>: the least offset at which \<open>sub\<close> occurs, \<^verbatim>\<open>ValueError\<close> when there is none.\<close>

fun str_index :: "string \<Rightarrow> string \<Rightarrow> error + nat" where
  "str_index [] sub = (if sub = [] then Inr 0 else Inl ValueError)"
| "str_index (c # cs) sub =
     (if startswith (c # cs) sub then Inr 0
      else case str_index cs sub of Inl e \<Rightarrow> Inl e | Inr i \<Rightarrow> Inr (Suc i))"

section \<open>Helpers of win\_unc.internal.parsing\<close>

text \<open>
  Modelled from the spec: the module \<^verbatim>\<open>win_unc/internal/parsing.py\<close>, from which
  \<^verbatim>\<open>net_use_table.py\<close> imports \<^verbatim>\<open>drop_while\<close>, \<^verbatim>\<open>take_while\<close>, \<^verbatim>\<open>first\<close>, \<^verbatim>\<open>rfirst\<close> and
  \<^verbatim>\<open>not_\<close>, is not among the sources. \<^verbatim>\<open>take_while\<close> keeps the longest prefix of the
  items that satisfy the predicate and \<^verbatim>\<open>drop_while\<close> removes it (the lines before the
  first separator, and the lines from it on); \<^verbatim>\<open>not_\<close> negates a predicate; \<^verbatim>\<open>rfirst\<close>
  selects the last item that satisfies the predicate and \<^verbatim>\<open>first\<close> the first one. When no
  item qualifies the result is absent: Python's \<^verbatim>\<open>None\<close>.
\<close>

text \<open>Modelled from the spec: \<^verbatim>\<open>take_while\<close> of the absent \<^verbatim>\<open>parsing.py\<close>, as a list.\<close>

definition take_while :: "('a \<Rightarrow> bool) \<Rightarrow> 'a list \<Rightarrow> 'a list" where
  "take_while predicate items = takeWhile predicate items"

text \<open>Modelled from the spec: \<^verbatim>\<open>drop_while\<close> of the absent \<^verbatim>\<open>parsing.py\<close>, as a list.\<close>

definition drop_while :: "('a \<Rightarrow> bool) \<Rightarrow> 'a list \<Rightarrow> 'a list" where
  "drop_while predicate items = dropWhile predicate items"

text \<open>Modelled from the spec: \<^verbatim>\<open>not_\<close> of the absent \<^verbatim>\<open>parsing.py\<close>.\<close>

definition not_pred :: "('a \<Rightarrow> bool) \<Rightarrow> 'a \<Rightarrow> bool" where
  "not_pred func x = (\<not> func x)"

text \<open>
  Modelled from the spec: \<^verbatim>\<open>first\<close> and \<^verbatim>\<open>rfirst\<close> of the absent \<^verbatim>\<open>parsing.py\<close>; \<open>None\<close>
  when no item satisfies the predicate.
\<close>

fun first :: "('a \<Rightarrow> bool) \<Rightarrow> 'a list \<Rightarrow> 'a option" where
  "first predicate [] = None"
| "first predicate (item # items) = (if predicate item then Some item else first predicate items)"

definition rfirst :: "('a \<Rightarrow> bool) \<Rightarrow> 'a list \<Rightarrow> 'a option" where
  "rfirst predicate items = first predicate (rev items)"

section \<open>The table of \<^verbatim>\<open>NET USE\<close> (net\_use\_table.py)\<close>

text \<open>A row is a dictionary from column names to values.\<close>

type_synonym row = "string \<rightharpoonup> string"

text \<open>\<^verbatim>\<open>row[key]\<close> raises \<^verbatim>\<open>KeyError\<close> on a missing key.\<close>

definition getitem :: "row \<Rightarrow> string \<Rightarrow> error + string" where
  "getitem d k = (case d k of None \<Rightarrow> Inl KeyError | Some v \<Rightarrow> Inr v)"

record NetUseTable =
  rows :: "row list"

definition new_table :: NetUseTable where
  "new_table = \<lparr>rows = []\<rparr>"

definition add_row :: "NetUseTable \<Rightarrow> row \<Rightarrow> NetUseTable" where
  "add_row t r = t\<lparr>rows := rows t @ [r]\<rparr>"

definition EMPTY_TABLE_INDICATOR :: string where
  "EMPTY_TABLE_INDICATOR = ''There are no entries in the list.''"

definition LAST_TABLE_LINE :: string where
  "LAST_TABLE_LINE = ''The command completed successfully.''"

definition MAP_RAW_COLUMNS_TO_STANDARD_COLUMNS :: "(string \<times> string) list" where
  "MAP_RAW_COLUMNS_TO_STANDARD_COLUMNS =
     [(''Local'', ''local''), (''Remote'', ''remote''), (''Status'', ''status'')]"

definition drive_letters_equal :: "string \<Rightarrow> string \<Rightarrow> bool" where
  "drive_letters_equal left right =
     (lower (rstrip_chars left '':'') = lower (rstrip_chars right '':''))"

text \<open>
  \<^verbatim>\<open>path = path.lower(); return path[-5:] if path.endswith(r'\ipc$') else path\<close>
\<close>

definition normalize_remote_path :: "string \<Rightarrow> string" where
  "normalize_remote_path path =
     (let path = lower path
      in if endswith path (BSL # ''ipc$'') then slice path (- 5) None else path)"

definition remote_paths_equal :: "string \<Rightarrow> string \<Rightarrow> bool" where
  "remote_paths_equal left right = (normalize_remote_path left = normalize_remote_path right)"

text \<open>
  One line of \<^verbatim>\<open>get_matching_rows\<close>: \<^verbatim>\<open>test(c, row[key]) if c else True\<close>. The row is
  read only when the criterion is truthy, that is neither \<^verbatim>\<open>None\<close> nor the empty string.
\<close>

fun criterion :: "string option \<Rightarrow> (string \<Rightarrow> string \<Rightarrow> bool) \<Rightarrow> row \<Rightarrow> string \<Rightarrow> error + bool" where
  "criterion None test r key = Inr True"
| "criterion (Some c) test r key =
     (if c = [] then Inr True
      else case getitem r key of Inl e \<Rightarrow> Inl e | Inr v \<Rightarrow> Inr (test c v))"

text \<open>The body of the loop: the three tests are all evaluated, in this order.\<close>

definition row_matching :: "string option \<Rightarrow> string option \<Rightarrow> string option \<Rightarrow> row \<Rightarrow> error + bool" where
  "row_matching local remote status r =
     (case criterion local drive_letters_equal r ''local'' of
        Inl e \<Rightarrow> Inl e
      | Inr m1 \<Rightarrow>
     (case criterion remote remote_paths_equal r ''remote'' of
        Inl e \<Rightarrow> Inl e
      | Inr m2 \<Rightarrow>
     (case criterion status (\<lambda>s v. lower s = lower v) r ''status'' of
        Inl e \<Rightarrow> Inl e
      | Inr m3 \<Rightarrow> Inr (m1 \<and> m2 \<and> m3))))"

fun matching_loop :: "string option \<Rightarrow> string option \<Rightarrow> string option \<Rightarrow> row list \<Rightarrow> row list \<Rightarrow> error + row list" where
  "matching_loop local remote status [] result = Inr result"
| "matching_loop local remote status (r # rs) result =
     (case row_matching local remote status r of
        Inl e \<Rightarrow> Inl e
      | Inr matching \<Rightarrow>
          matching_loop local remote status rs (if matching then result @ [r] else result))"

definition get_matching_rows :: "NetUseTable \<Rightarrow> string option \<Rightarrow> string option \<Rightarrow> string option \<Rightarrow> error + row list" where
  "get_matching_rows t local remote status = matching_loop local remote status (rows t) []"

section \<open>Parsing the output of \<^verbatim>\<open>NET USE\<close>\<close>

text \<open>
  \<^verbatim>\<open>NetUseColumn\<close>: a column's name, the offset where its data begins and the offset where
  it ends, \<^verbatim>\<open>None\<close> for the end of the line.
\<close>

record NetUseColumn =
  name :: string
  start :: int
  end_idx :: "int option"

text \<open>\<^verbatim>\<open>NetUseColumn.extract\<close>: \<^verbatim>\<open>string[self.start:self.end].strip()\<close>\<close>

definition column_extract :: "NetUseColumn \<Rightarrow> string \<Rightarrow> string" where
  "column_extract column line = strip (slice line (start column) (end_idx column))"

text \<open>
  \<^verbatim>\<open>rekey_dict\<close>: \<^verbatim>\<open>{new_key: d[old_key] for old_key, new_key in key_map.iteritems()}\<close>;
  a key of \<open>key_map\<close> that \<open>d\<close> lacks raises \<^verbatim>\<open>KeyError\<close>.
\<close>

fun rekey_loop :: "row \<Rightarrow> (string \<times> string) list \<Rightarrow> row \<Rightarrow> error + row" where
  "rekey_loop d [] result = Inr result"
| "rekey_loop d ((old_key, new_key) # key_map) result =
     (case getitem d old_key of
        Inl e \<Rightarrow> Inl e
      | Inr v \<Rightarrow> rekey_loop d key_map (result(new_key \<mapsto> v)))"

definition rekey_dict :: "row \<Rightarrow> (string \<times> string) list \<Rightarrow> error + row" where
  "rekey_dict d key_map = rekey_loop d key_map Map.empty"

text \<open>\<^verbatim>\<open>is_line_separator\<close>: \<^verbatim>\<open>line and all(char == '-' for char in line)\<close>\<close>

definition is_line_separator :: "string \<Rightarrow> bool" where
  "is_line_separator line = (line \<noteq> [] \<and> list_all (\<lambda>char. char = CHR ''-'') line)"

text \<open>The predicate of \<^verbatim>\<open>get_columns\<close>: \<^verbatim>\<open>lambda x: x and x[0].isalpha()\<close>\<close>

definition is_heading :: "string \<Rightarrow> bool" where
  "is_heading x = (case x of [] \<Rightarrow> False | c # _ \<Rightarrow> isalpha c)"

text \<open>\<^verbatim>\<open>[headings.index(name) for name in names]\<close>\<close>

fun index_all :: "string \<Rightarrow> string list \<Rightarrow> error + int list" where
  "index_all headings [] = Inr []"
| "index_all headings (n # ns) =
     (case str_index headings n of
        Inl e \<Rightarrow> Inl e
      | Inr i \<Rightarrow> (case index_all headings ns of Inl e \<Rightarrow> Inl e | Inr is \<Rightarrow> Inr (int i # is)))"

text \<open>
  \<^verbatim>\<open>get_columns\<close>. The source does not test \<^verbatim>\<open>headings\<close> and raises nothing itself: when
  \<^verbatim>\<open>rfirst\<close> has found no line, \<^verbatim>\<open>headings\<close> is \<^verbatim>\<open>None\<close> and the next statement,
  \<^verbatim>\<open>headings.split()\<close>, raises \<^verbatim>\<open>AttributeError\<close>.
\<close>

definition get_columns :: "string list \<Rightarrow> error + NetUseColumn list" where
  "get_columns lines =
     (let header_iter = take_while (not_pred is_line_separator) lines
      in case rfirst is_heading header_iter of
           None \<Rightarrow> Inl AttributeError
         | Some headings \<Rightarrow>
             (let names = str_split headings
              in case index_all headings names of
                   Inl e \<Rightarrow> Inl e
                 | Inr starts \<Rightarrow>
                     (let ends = map (\<lambda>right. Some (right - 1)) (drop 1 starts) @ [None]
                      in Inr (map (\<lambda>(n, s, e). \<lparr>name = n, start = s, end_idx = e\<rparr>)
                                  (zip names (zip starts ends))))))"

definition get_body :: "string list \<Rightarrow> string list" where
  "get_body lines =
     (let bottom = drop_while (not_pred is_line_separator) lines;
          is_last_line = (\<lambda>x. x \<noteq> [] \<and> x \<noteq> LAST_TABLE_LINE)
      in if length bottom > 1 then take_while is_last_line (drop 1 bottom) else [])"

text \<open>
  \<^verbatim>\<open>{column.name: column.extract(line) for column in columns}\<close>: of two columns with one
  name the later one stays.
\<close>

definition raw_dict :: "string \<Rightarrow> NetUseColumn list \<Rightarrow> row" where
  "raw_dict line columns =
     fold (\<lambda>column d. d(name column \<mapsto> column_extract column line)) columns Map.empty"

definition parse_singleline_row :: "string \<Rightarrow> NetUseColumn list \<Rightarrow> error + row" where
  "parse_singleline_row line columns =
     rekey_dict (raw_dict line columns) MAP_RAW_COLUMNS_TO_STANDARD_COLUMNS"

text \<open>
  The layout of a two-line row: on a copy of the columns,
  \<^verbatim>\<open>custom_columns[-2].end = len(line1)\<close> and \<^verbatim>\<open>custom_columns[-1].start = len(line1) + 1\<close>;
  with fewer than two columns the first assignment raises \<^verbatim>\<open>IndexError\<close>. The columns are
  values here; the objects and their copies are in the section on the store below.
\<close>

definition custom_columns :: "string \<Rightarrow> NetUseColumn list \<Rightarrow> error + NetUseColumn list" where
  "custom_columns line1 columns =
     (let n = length columns
      in if n < 2 then Inl IndexError
         else
           (let cs1 = columns[n - 2 := (columns ! (n - 2))\<lparr>end_idx := Some (int (length line1))\<rparr>];
                cs2 = cs1[n - 1 := (cs1 ! (n - 1))\<lparr>start := int (length line1) + 1\<rparr>]
            in Inr cs2))"

definition parse_multiline_row :: "string \<Rightarrow> string \<Rightarrow> NetUseColumn list \<Rightarrow> error + row" where
  "parse_multiline_row line1 line2 columns =
     (let singleline_row = line1 @ '' '' @ strip line2
      in case custom_columns line1 columns of
           Inl e \<Rightarrow> Inl e
         | Inr cs \<Rightarrow> parse_singleline_row singleline_row cs)"

text \<open>
  The loop of \<^verbatim>\<open>build_net_use_table_from_parts\<close> over the pairs
  \<^verbatim>\<open>zip(body_lines, body_lines[1:] + [''])\<close>.
\<close>

fun build_loop :: "NetUseColumn list \<Rightarrow> (string \<times> string) list \<Rightarrow> NetUseTable \<Rightarrow> error + NetUseTable" where
  "build_loop columns [] table = Inr table"
| "build_loop columns ((this_row, next_row) # pairs) table =
     (if \<not> startswith this_row '' '' then
        (case (if startswith next_row '' ''
               then parse_multiline_row this_row next_row columns
               else parse_singleline_row this_row columns) of
           Inl e \<Rightarrow> Inl e
         | Inr r \<Rightarrow> build_loop columns pairs (add_row table r))
      else build_loop columns pairs table)"

definition build_net_use_table_from_parts :: "NetUseColumn list \<Rightarrow> string list \<Rightarrow> error + NetUseTable" where
  "build_net_use_table_from_parts columns body_lines =
     build_loop columns (zip body_lines (drop 1 body_lines @ [[]])) new_table"

definition parse_populated_net_use_table :: "string \<Rightarrow> error + NetUseTable" where
  "parse_populated_net_use_table string =
     (let lines = map rstrip (str_split_on string (CHR 0x0A))
      in case get_columns lines of
           Inl e \<Rightarrow> Inl e
         | Inr columns \<Rightarrow> build_net_use_table_from_parts columns (get_body lines))"

definition parse_net_use_table :: "string \<Rightarrow> error + NetUseTable" where
  "parse_net_use_table string =
     (if contains string EMPTY_TABLE_INDICATOR then Inr new_table
      else parse_populated_net_use_table string)"

section \<open>Column objects in a store\<close>

text \<open>
  \<^verbatim>\<open>parse_multiline_row\<close> assigns to attributes of column objects. To see which objects
  it writes, the columns are kept in a store: an address is an index into the list of all
  objects, a Python list of columns is a list of addresses, and a new object is appended.
  A Python reference always points to an object, so the store is only read at addresses
  below its length.
\<close>

type_synonym ref = nat

type_synonym store = "NetUseColumn list"

definition alloc :: "NetUseColumn \<Rightarrow> store \<Rightarrow> ref \<times> store" where
  "alloc c h = (length h, h @ [c])"

text \<open>
  \<^verbatim>\<open>copy.deepcopy(columns)\<close>: a new list of new objects. The memo of \<^verbatim>\<open>deepcopy\<close> maps
  an object already copied to its copy, so an object that occurs twice is copied once.
\<close>

fun deepcopy_loop :: "ref list \<Rightarrow> (ref \<times> ref) list \<Rightarrow> store \<Rightarrow> ref list \<times> store" where
  "deepcopy_loop [] memo h = ([], h)"
| "deepcopy_loop (r # rs) memo h =
     (case map_of memo r of
        Some r' \<Rightarrow> (case deepcopy_loop rs memo h of (rs', h') \<Rightarrow> (r' # rs', h'))
      | None \<Rightarrow>
          (case alloc (h ! r) h of
             (r', h1) \<Rightarrow>
               (case deepcopy_loop rs ((r, r') # memo) h1 of (rs', h') \<Rightarrow> (r' # rs', h'))))"

definition deepcopy :: "ref list \<Rightarrow> store \<Rightarrow> ref list \<times> store" where
  "deepcopy rs h = deepcopy_loop rs [] h"

text \<open>\<^verbatim>\<open>parse_multiline_row\<close> on the store: the result and the store it leaves.\<close>

definition parse_multiline_row_store :: "string \<Rightarrow> string \<Rightarrow> ref list \<Rightarrow> store \<Rightarrow> (error + row) \<times> store" where
  "parse_multiline_row_store line1 line2 columns h =
     (let singleline_row = line1 @ '' '' @ strip line2
      in case deepcopy columns h of
           (custom, h1) \<Rightarrow>
             (let n = length custom
              in if n < 2 then (Inl IndexError, h1)
                 else
                   (let r2 = custom ! (n - 2);
                        h2 = h1[r2 := (h1 ! r2)\<lparr>end_idx := Some (int (length line1))\<rparr>];
                        r1 = custom ! (n - 1);
                        h3 = h2[r1 := (h2 ! r1)\<lparr>start := int (length line1) + 1\<rparr>]
                    in (parse_singleline_row singleline_row (map (\<lambda>r. h3 ! r) custom), h3))))"

section \<open>Addresses with credentials (unc\_directory.py)\<close>

text \<open>
  Modelled from the spec: the module \<^verbatim>\<open>win_unc/unc_directory.py\<close> with
  \<^verbatim>\<open>get_creds_from_string\<close> and \<^verbatim>\<open>get_unc_directory_from_string\<close> is not among the sources;
  its tests (\<^verbatim>\<open>src/test/test_unc_directory.py\<close>) are. The definitions follow section 4.5 of
  the spec: the address is split at the rightmost \<^verbatim>\<open>@\<close> that is immediately followed by the
  UNC prefix, and the credential portion at its first colon. Where section 4.5 calls an
  empty text before a colon an explicit empty username, the spec's own example
  \<^verbatim>\<open>parse_address(":pass@\\path") == Directory("\\path", None, "pass")\<close> and the assertions of
  \<^verbatim>\<open>test_get_creds_from_string\<close> (\<^verbatim>\<open>':pass'\<close>, \<^verbatim>\<open>'::'\<close> and \<^verbatim>\<open>':""'\<close> all give the username
  \<^verbatim>\<open>None\<close>) say that the username is absent; the definition follows the tests, which are
  transcribed below.
\<close>

record UncCredentials =
  username :: "string option"
  password :: "string option"

record UncDirectory =
  path :: string
  creds :: UncCredentials

text \<open>
  Modelled from the spec: \<^verbatim>\<open>get_creds_from_string\<close> of the absent \<^verbatim>\<open>unc_directory.py\<close>. The
  text is split on its first colon; an empty text before the colon, and an empty text
  without colon, give an absent username.
\<close>

definition get_creds_from_string :: "string \<Rightarrow> UncCredentials" where
  "get_creds_from_string s =
     (if CHR '':'' \<in> set s
      then (let u = takeWhile (\<lambda>c. c \<noteq> CHR '':'') s;
                p = drop 1 (dropWhile (\<lambda>c. c \<noteq> CHR '':'') s)
            in \<lparr>username = (if u = [] then None else Some u), password = Some p\<rparr>)
      else \<lparr>username = (if s = [] then None else Some s), password = None\<rparr>)"

text \<open>
  Modelled from the spec: the scan of \<^verbatim>\<open>get_unc_directory_from_string\<close> (absent
  \<^verbatim>\<open>unc_directory.py\<close>) for the rightmost \<^verbatim>\<open>@\<close> followed by the UNC prefix: the offset of
  the last occurrence of \<open>sub\<close> in \<open>s\<close>.
\<close>

fun rfind :: "string \<Rightarrow> string \<Rightarrow> nat option" where
  "rfind [] sub = (if sub = [] then Some 0 else None)"
| "rfind (c # cs) sub =
     (case rfind cs sub of
        Some i \<Rightarrow> Some (Suc i)
      | None \<Rightarrow> if startswith (c # cs) sub then Some 0 else None)"

text \<open>
  Modelled from the spec: \<^verbatim>\<open>get_unc_directory_from_string\<close> of the absent
  \<^verbatim>\<open>unc_directory.py\<close>. Without a split point the whole string is the path and there are
  no credentials.
\<close>

definition get_unc_directory_from_string :: "string \<Rightarrow> UncDirectory" where
  "get_unc_directory_from_string s =
     (case rfind s [CHR ''@'', BSL, BSL] of
        None \<Rightarrow> \<lparr>path = s, creds = \<lparr>username = None, password = None\<rparr>\<rparr>
      | Some i \<Rightarrow> \<lparr>path = drop (Suc i) s, creds = get_creds_from_string (take i s)\<rparr>)"

text \<open>
  The assertions of \<^verbatim>\<open>test_get_creds_from_string\<close> and
  \<^verbatim>\<open>test_get_unc_directory_from_string\<close>: the argument and the expected value.
\<close>

definition test_get_creds_from_string :: "(string \<times> UncCredentials) list" where
  "test_get_creds_from_string =
     [('''', \<lparr>username = None, password = None\<rparr>),
      (''user'', \<lparr>username = Some ''user'', password = None\<rparr>),
      ([CHR '':'', CHR 0x22, CHR 0x22], \<lparr>username = None, password = Some [CHR 0x22, CHR 0x22]\<rparr>),
      (''::'', \<lparr>username = None, password = Some '':''\<rparr>),
      ('':pass'', \<lparr>username = None, password = Some ''pass''\<rparr>),
      (''user:'', \<lparr>username = Some ''user'', password = Some ''''\<rparr>),
      (''user:pass'', \<lparr>username = Some ''user'', password = Some ''pass''\<rparr>),
      (''user::'', \<lparr>username = Some ''user'', password = Some '':''\<rparr>)]"

definition test_get_unc_directory_from_string :: "(string \<times> UncDirectory) list" where
  "test_get_unc_directory_from_string =
     [(BSL # BSL # ''path'',
        \<lparr>path = BSL # BSL # ''path'', creds = \<lparr>username = None, password = None\<rparr>\<rparr>),
      (BSL # BSL # ''path'' @ BSL # ''sub'',
        \<lparr>path = BSL # BSL # ''path'' @ BSL # ''sub'', creds = \<lparr>username = None, password = None\<rparr>\<rparr>),
      (''user@'' @ BSL # BSL # ''path'',
        \<lparr>path = BSL # BSL # ''path'', creds = \<lparr>username = Some ''user'', password = None\<rparr>\<rparr>),
      ('':pass@'' @ BSL # BSL # ''path'',
        \<lparr>path = BSL # BSL # ''path'', creds = \<lparr>username = None, password = Some ''pass''\<rparr>\<rparr>),
      (''::@'' @ BSL # BSL # ''@'' @ BSL # BSL # ''path'',
        \<lparr>path = BSL # BSL # ''path'',
         creds = \<lparr>username = None, password = Some ('':@'' @ [BSL, BSL])\<rparr>\<rparr>),
      (''user:pass@'' @ BSL # BSL # ''path'',
        \<lparr>path = BSL # BSL # ''path'', creds = \<lparr>username = Some ''user'', password = Some ''pass''\<rparr>\<rparr>),
      (''user::@'' @ BSL # BSL # ''@'' @ BSL # BSL # ''path'',
        \<lparr>path = BSL # BSL # ''path'',
         creds = \<lparr>username = Some ''user'', password = Some ('':@'' @ [BSL, BSL])\<rparr>\<rparr>)]"

section \<open>Matching rows\<close>

lemma criterion_empty:
  "criterion (Some []) test r key = criterion None test r key"
  by simp

lemma row_matching_empty_local:
  "row_matching (Some []) remote status r = row_matching None remote status r"
  by (simp add: row_matching_def split: sum.splits)

lemma row_matching_empty_remote:
  "row_matching local (Some []) status r = row_matching local None status r"
  by (simp add: row_matching_def split: sum.splits)

lemma row_matching_empty_status:
  "row_matching local remote (Some []) r = row_matching local remote None r"
  by (simp add: row_matching_def split: sum.splits)

lemma matching_loop_empty_local:
  "matching_loop (Some []) remote status rs acc = matching_loop None remote status rs acc"
  by (induction rs arbitrary: acc) (simp_all add: row_matching_empty_local split: sum.splits)

lemma matching_loop_empty_remote:
  "matching_loop local (Some []) status rs acc = matching_loop local None status rs acc"
  by (induction rs arbitrary: acc) (simp_all add: row_matching_empty_remote split: sum.splits)

lemma matching_loop_empty_status:
  "matching_loop local remote (Some []) rs acc = matching_loop local remote None rs acc"
  by (induction rs arbitrary: acc) (simp_all add: row_matching_empty_status split: sum.splits)

lemma matching_loop_unset:
  "matching_loop None None None rs acc = Inr (acc @ rs)"
  by (induction rs arbitrary: acc) (simp_all add: row_matching_def split: sum.splits)

text \<open>
  Claim C10. \<^verbatim>\<open>get_matching_rows\<close> tests each criterion for truthiness: the empty string
  as the local, remote or status criterion gives the same result as leaving that criterion
  unset, whatever the other two criteria are, and three empty criteria return every row of
  the table, in order, without reading any row.
\<close>

theorem get_matching_rows_empty_criterion:
  "get_matching_rows t (Some []) remote status = get_matching_rows t None remote status
   \<and> get_matching_rows t local (Some []) status = get_matching_rows t local None status
   \<and> get_matching_rows t local remote (Some []) = get_matching_rows t local remote None
   \<and> get_matching_rows t (Some []) (Some []) (Some []) = Inr (rows t)"
  by (simp add: get_matching_rows_def matching_loop_empty_local matching_loop_empty_remote
      matching_loop_empty_status matching_loop_unset)

text \<open>
  Claim C1. The claim asks that a criterion \<^verbatim>\<open>\\host\ipc$\<close> match a row whose remote value
  is \<^verbatim>\<open>\\host\<close>. The code keeps the last five characters of a path that ends with
  \<^verbatim>\<open>\ipc$\<close> instead of dropping them, so the criterion is normalized to \<^verbatim>\<open>\ipc$\<close>, the row
  to \<^verbatim>\<open>\\host\<close>, and the row is not returned.
\<close>

theorem get_matching_rows_ipc_not_matched:
  "normalize_remote_path (BSL # BSL # ''host'' @ BSL # ''ipc$'') = BSL # ''ipc$''
   \<and> normalize_remote_path (BSL # BSL # ''host'') = BSL # BSL # ''host''
   \<and> get_matching_rows
        \<lparr>rows = [[''local'' \<mapsto> ''Z:'', ''remote'' \<mapsto> BSL # BSL # ''host'', ''status'' \<mapsto> ''OK'']]\<rparr>
        None (Some (BSL # BSL # ''host'' @ BSL # ''ipc$'')) None = Inr []"
  by (simp add: get_matching_rows_def row_matching_def getitem_def remote_paths_equal_def
      normalize_remote_path_def lower_def lower_char_def upper_chars_def lower_chars_def
      endswith_def slice_def clip_def)

section \<open>The body of the table\<close>

lemma not_pred_separator:
  "not_pred is_line_separator = (\<lambda>l. \<not> is_line_separator l)"
  by (simp add: not_pred_def fun_eq_iff)

lemma get_body_eq:
  "get_body lines =
     takeWhile (\<lambda>x. x \<noteq> [] \<and> x \<noteq> LAST_TABLE_LINE)
       (drop 1 (dropWhile (\<lambda>l. \<not> is_line_separator l) lines))"
proof -
  define bottom where "bottom = dropWhile (\<lambda>l. \<not> is_line_separator l) lines"
  have "(if length bottom > 1
         then takeWhile (\<lambda>x. x \<noteq> [] \<and> x \<noteq> LAST_TABLE_LINE) (drop 1 bottom) else [])
        = takeWhile (\<lambda>x. x \<noteq> [] \<and> x \<noteq> LAST_TABLE_LINE) (drop 1 bottom)"
    by (cases bottom) (simp_all add: drop_Suc)
  then show ?thesis
    unfolding get_body_def drop_while_def take_while_def not_pred_separator Let_def bottom_def .
qed

lemma dropWhile_head:
  "(case dropWhile P xs of [] \<Rightarrow> True | x # _ \<Rightarrow> \<not> P x)"
  by (induction xs) simp_all

text \<open>
  Claim C5, amended. For every list of lines, either no line is a separator and the body is
  empty, or the lines are: lines without a separator, the first separator, the body, and a
  tail; every line of the body is non-empty and differs from the terminator
  \<^verbatim>\<open>The command completed successfully.\<close>, and the tail is empty (end of input) or begins
  with an empty line or with the terminator. So the body ends before the first line after
  the separator that is empty or is the terminator.
\<close>

theorem get_body_lines:
  "(list_all (\<lambda>l. \<not> is_line_separator l) lines \<and> get_body lines = [])
   \<or> (\<exists>pre sep tail.
         lines = pre @ sep # get_body lines @ tail
         \<and> list_all (\<lambda>l. \<not> is_line_separator l) pre
         \<and> is_line_separator sep
         \<and> list_all (\<lambda>x. x \<noteq> [] \<and> x \<noteq> LAST_TABLE_LINE) (get_body lines)
         \<and> (case tail of [] \<Rightarrow> True | x # _ \<Rightarrow> x = [] \<or> x = LAST_TABLE_LINE))"
proof (cases "dropWhile (\<lambda>l. \<not> is_line_separator l) lines")
  case Nil
  then have "list_all (\<lambda>l. \<not> is_line_separator l) lines"
    by (simp add: list_all_iff)
  moreover have "get_body lines = []"
    unfolding get_body_eq Nil by simp
  ultimately show ?thesis by simp
next
  case (Cons sep rest)
  let ?good = "\<lambda>x. x \<noteq> [] \<and> x \<noteq> LAST_TABLE_LINE"
  let ?pre = "takeWhile (\<lambda>l. \<not> is_line_separator l) lines"
  have body: "get_body lines = takeWhile ?good rest"
    unfolding get_body_eq Cons by simp
  have "lines = ?pre @ sep # rest"
    using Cons takeWhile_dropWhile_id [of "\<lambda>l. \<not> is_line_separator l" lines] by simp
  then have split: "lines = ?pre @ sep # get_body lines @ dropWhile ?good rest"
    by (simp add: body)
  have pre: "list_all (\<lambda>l. \<not> is_line_separator l) ?pre"
    by (auto simp: list_all_iff dest: set_takeWhileD)
  have sep: "is_line_separator sep"
    using hd_dropWhile [of "\<lambda>l. \<not> is_line_separator l" lines] Cons by simp
  have good: "list_all ?good (get_body lines)"
    unfolding body by (auto simp: list_all_iff dest: set_takeWhileD)
  have tail: "(case dropWhile ?good rest of [] \<Rightarrow> True | x # _ \<Rightarrow> x = [] \<or> x = LAST_TABLE_LINE)"
  proof (cases "dropWhile ?good rest")
    case Nil
    show ?thesis unfolding Nil by simp
  next
    case (Cons x xs)
    have "\<not> ?good x"
      using dropWhile_head [of ?good rest] unfolding Cons by simp
    then show ?thesis unfolding Cons by simp
  qed
  show ?thesis
    using split pre sep good tail by blast
qed

theorem get_body_lines_witness:
  "get_body [''Status Local'', ''-----'', ''OK Z:'', ''OK Y:'', LAST_TABLE_LINE, ''''] =
     [''OK Z:'', ''OK Y:'']"
  using get_body_lines [of "[''Status Local'', ''-----'', ''OK Z:'', ''OK Y:'', LAST_TABLE_LINE, '''']"]
  by (simp add: get_body_eq is_line_separator_def LAST_TABLE_LINE_def)

text \<open>
  Claim C5 as stated fails: the body also ends at an empty line. Of the lines \<^verbatim>\<open>a\<close>, the
  empty line and \<^verbatim>\<open>b\<close> that stand between the separator and the terminator, only \<^verbatim>\<open>a\<close>
  is in the body.
\<close>

theorem get_body_stops_at_empty_line:
  "get_body [''Local'', ''---'', ''a'', '''', ''b'', LAST_TABLE_LINE] = [''a'']
   \<and> get_body [''Local'', ''---'', ''a'', '''', ''b'', LAST_TABLE_LINE] \<noteq> [''a'', '''', ''b'']"
  by (simp add: get_body_eq is_line_separator_def LAST_TABLE_LINE_def)

section \<open>The column layout\<close>

lemmas char_defs = isalpha_def isspace_def upper_chars_def lower_chars_def lower_char_def

lemma first_None: "first P xs = None \<longleftrightarrow> list_all (\<lambda>x. \<not> P x) xs"
  by (induction xs) simp_all

lemma first_unique:
  "P h \<Longrightarrow> list_all (\<lambda>x. \<not> P x) pre \<Longrightarrow> first P (pre @ h # post) = Some h"
  by (induction pre) simp_all

lemma rfirst_last:
  "P h \<Longrightarrow> list_all (\<lambda>x. \<not> P x) post \<Longrightarrow> rfirst P (pre @ h # post) = Some h"
  using first_unique [of P h "rev post" "rev pre"] by (simp add: rfirst_def)

lemma rfirst_None: "rfirst P xs = None \<longleftrightarrow> list_all (\<lambda>x. \<not> P x) xs"
  by (simp add: rfirst_def first_None)

lemma takeWhile_until:
  "list_all P xs \<Longrightarrow> (case rest of [] \<Rightarrow> True | s # _ \<Rightarrow> \<not> P s) \<Longrightarrow> takeWhile P (xs @ rest) = xs"
  by (induction xs) (simp_all split: list.splits)

lemma str_index_Inr:
  "str_index s sub = Inr k \<Longrightarrow>
     startswith (drop k s) sub \<and> (\<forall>j<k. \<not> startswith (drop j s) sub)"
proof (induction s arbitrary: k)
  case Nil
  then show ?case by (simp add: startswith_def split: if_splits)
next
  case (Cons c cs)
  show ?case
  proof (cases "startswith (c # cs) sub")
    case True
    with Cons.prems show ?thesis by simp
  next
    case False
    with Cons.prems obtain i where i: "str_index cs sub = Inr i" "k = Suc i"
      by (auto split: sum.splits)
    from Cons.IH [OF i(1)] have ih: "startswith (drop i cs) sub" "\<forall>j<i. \<not> startswith (drop j cs) sub"
      by simp_all
    have "\<not> startswith (drop j (c # cs)) sub" if "j < k" for j
    proof (cases j)
      case 0
      with False show ?thesis by simp
    next
      case (Suc j')
      with that i(2) ih(2) show ?thesis by simp
    qed
    with ih(1) i(2) show ?thesis by simp
  qed
qed

lemma str_index_occurs:
  "startswith (drop k s) sub \<Longrightarrow> k \<le> length s \<Longrightarrow> \<exists>i. str_index s sub = Inr i"
proof (induction s arbitrary: k)
  case Nil
  then show ?case by (simp add: startswith_def)
next
  case (Cons c cs)
  show ?case
  proof (cases "startswith (c # cs) sub")
    case True
    then show ?thesis by simp
  next
    case False
    with Cons.prems obtain k' where "k = Suc k'" by (cases k) auto
    with Cons.prems have "startswith (drop k' cs) sub" "k' \<le> length cs" by simp_all
    from Cons.IH [OF this] obtain i where "str_index cs sub = Inr i" by blast
    with False show ?thesis by simp
  qed
qed

lemma split_loop_occurs:
  "w \<in> set (split_loop cur cs) \<Longrightarrow> \<exists>k\<le>length (cur @ cs). startswith (drop k (cur @ cs)) w"
proof (induction cs arbitrary: cur)
  case Nil
  then have "w = cur" by (simp split: if_splits)
  then have "startswith (drop 0 (cur @ [])) w" by (simp add: startswith_def)
  then show ?case by blast
next
  case (Cons c cs)
  show ?case
  proof (cases "isspace c")
    case False
    with Cons.prems have "w \<in> set (split_loop (cur @ [c]) cs)" by simp
    from Cons.IH [OF this] show ?thesis by simp
  next
    case True
    show ?thesis
    proof (cases "w = cur")
      case True
      then have "startswith (drop 0 (cur @ c # cs)) w" by (simp add: startswith_def)
      then show ?thesis by blast
    next
      case False
      with True Cons.prems have "w \<in> set (split_loop [] cs)" by (simp split: if_splits)
      from Cons.IH [OF this] obtain k where k: "k \<le> length cs" "startswith (drop k cs) w" by auto
      then have "startswith (drop (length cur + Suc k) (cur @ c # cs)) w" by simp
      moreover have "length cur + Suc k \<le> length (cur @ c # cs)" using k(1) by simp
      ultimately show ?thesis by blast
    qed
  qed
qed

lemma index_all_Inr:
  "\<forall>n\<in>set ns. \<exists>i. str_index h n = Inr i \<Longrightarrow>
     \<exists>starts. index_all h ns = Inr starts \<and> length starts = length ns
       \<and> (\<forall>i<length ns. \<exists>k. starts ! i = int k \<and> str_index h (ns ! i) = Inr k)"
proof (induction ns)
  case Nil
  then show ?case by simp
next
  case (Cons n ns)
  then obtain k where k: "str_index h n = Inr k" by auto
  from Cons obtain starts where s: "index_all h ns = Inr starts" "length starts = length ns"
    "\<forall>i<length ns. \<exists>k. starts ! i = int k \<and> str_index h (ns ! i) = Inr k"
    by auto
  have "\<exists>k'. (int k # starts) ! i = int k' \<and> str_index h ((n # ns) ! i) = Inr k'"
    if "i < length (n # ns)" for i
    using that k s(3) by (cases i) auto
  with k s(1,2) show ?case by simp
qed

lemma split_loop_nonempty:
  "cur \<noteq> [] \<Longrightarrow> split_loop cur cs \<noteq> []"
  by (induction cs arbitrary: cur) simp_all

lemma str_split_heading: "is_heading h \<Longrightarrow> str_split h \<noteq> []"
proof -
  assume "is_heading h"
  then obtain c cs where h: "h = c # cs" "isalpha c"
    by (auto simp: is_heading_def split: list.splits)
  then have "\<not> isspace c"
    by (auto simp: isalpha_def isspace_def upper_chars_def lower_chars_def)
  with h show ?thesis
    by (simp add: str_split_def split_loop_nonempty)
qed

lemma layout_nth:
  assumes len: "length starts = length names" and ne: "names \<noteq> []"
  defines "ends \<equiv> map (\<lambda>right. Some (right - 1)) (drop 1 starts) @ [None]"
  defines "cols \<equiv> map (\<lambda>(n, s, e). \<lparr>name = n, start = s, end_idx = e\<rparr>) (zip names (zip starts ends))"
  shows "length cols = length names"
    and "i < length names \<Longrightarrow> name (cols ! i) = names ! i"
    and "i < length names \<Longrightarrow> start (cols ! i) = starts ! i"
    and "i < length names \<Longrightarrow>
           end_idx (cols ! i) = (if Suc i < length names then Some (starts ! Suc i - 1) else None)"
proof -
  have le: "length ends = length names"
    using len ne by (cases names) (simp_all add: ends_def)
  show lc: "length cols = length names"
    by (simp add: cols_def le len)
  have e: "ends ! i = (if Suc i < length names then Some (starts ! Suc i - 1) else None)"
    if "i < length names" for i
    using that len by (auto simp: ends_def nth_append)
  have c: "cols ! i = \<lparr>name = names ! i, start = starts ! i, end_idx = ends ! i\<rparr>"
    if "i < length names" for i
    using that len le by (simp add: cols_def)
  show "i < length names \<Longrightarrow> name (cols ! i) = names ! i" by (simp add: c)
  show "i < length names \<Longrightarrow> start (cols ! i) = starts ! i" by (simp add: c)
  show "i < length names \<Longrightarrow>
           end_idx (cols ! i) = (if Suc i < length names then Some (starts ! Suc i - 1) else None)"
    by (simp add: c e)
qed

lemma get_columns_of_heading:
  assumes "rfirst is_heading (takeWhile (\<lambda>l. \<not> is_line_separator l) lines) = Some h"
    and "is_heading h"
  shows "\<exists>cols. get_columns lines = Inr cols \<and> length cols = length (str_split h) \<and> cols \<noteq> []
      \<and> (\<forall>i<length cols. name (cols ! i) = str_split h ! i)
      \<and> (\<forall>i<length cols. \<exists>k. start (cols ! i) = int k \<and> str_index h (str_split h ! i) = Inr k)
      \<and> (\<forall>i<length cols. end_idx (cols ! i) =
            (if Suc i < length cols then Some (start (cols ! Suc i) - 1) else None))"
proof -
  let ?names = "str_split h"
  have ne: "?names \<noteq> []" using assms(2) by (rule str_split_heading)
  have "\<forall>n\<in>set ?names. \<exists>i. str_index h n = Inr i"
  proof
    fix n assume "n \<in> set ?names"
    then obtain k where "k \<le> length h" "startswith (drop k h) n"
      using split_loop_occurs [of n "[]" h] by (auto simp: str_split_def)
    then show "\<exists>i. str_index h n = Inr i" using str_index_occurs by blast
  qed
  from index_all_Inr [OF this] obtain starts where s: "index_all h ?names = Inr starts"
    "length starts = length ?names"
    "\<forall>i<length ?names. \<exists>k. starts ! i = int k \<and> str_index h (?names ! i) = Inr k"
    by blast
  define cols where "cols = map (\<lambda>(n, s, e). \<lparr>name = n, start = s, end_idx = e\<rparr>)
     (zip ?names (zip starts (map (\<lambda>right. Some (right - 1)) (drop 1 starts) @ [None])))"
  have gc: "get_columns lines = Inr cols"
    using assms(1) s(1)
    by (simp add: get_columns_def take_while_def not_pred_separator cols_def Let_def)
  note l = layout_nth [OF s(2) ne, folded cols_def]
  have "cols \<noteq> []" using l(1) ne by auto
  moreover have "\<forall>i<length cols. name (cols ! i) = ?names ! i" using l(1,2) by simp
  moreover have "\<forall>i<length cols. \<exists>k. start (cols ! i) = int k \<and> str_index h (?names ! i) = Inr k"
    using l(1,3) s(3) by simp
  moreover have "\<forall>i<length cols. end_idx (cols ! i) =
            (if Suc i < length cols then Some (start (cols ! Suc i) - 1) else None)"
    using l(1,3,4) by simp
  ultimately show ?thesis using gc l(1) by blast
qed

text \<open>
  Claim C6, amended. When the lines before the first separator (all lines, when there is
  none) are \<open>pre\<close>, \<open>h\<close> and \<open>post\<close>, where \<open>h\<close> begins with an alphabetic character and
  no line of \<open>post\<close> does, the columns are those of \<open>h\<close>: their names are \<open>h\<close> split on
  whitespace, in order; the start of each is the least offset at which its name occurs in
  \<open>h\<close>; the end of each but the last is one less than the start of the next; the end of the
  last is unset.
\<close>

theorem get_columns_layout:
  assumes "lines = pre @ h # post @ rest"
    and "list_all (\<lambda>l. \<not> is_line_separator l) (pre @ h # post)"
    and "case rest of [] \<Rightarrow> True | s # _ \<Rightarrow> is_line_separator s"
    and "is_heading h"
    and "list_all (\<lambda>l. \<not> is_heading l) post"
  shows "\<exists>cols. get_columns lines = Inr cols \<and> cols \<noteq> []
      \<and> map name cols = str_split h
      \<and> (\<forall>i<length cols. \<exists>k. start (cols ! i) = int k
            \<and> startswith (drop k h) (name (cols ! i))
            \<and> (\<forall>j<k. \<not> startswith (drop j h) (name (cols ! i))))
      \<and> (\<forall>i. Suc i < length cols \<longrightarrow> end_idx (cols ! i) = Some (start (cols ! Suc i) - 1))
      \<and> end_idx (last cols) = None"
proof -
  have "takeWhile (\<lambda>l. \<not> is_line_separator l) ((pre @ h # post) @ rest) = pre @ h # post"
    using assms(2,3) by (intro takeWhile_until) (simp_all split: list.splits)
  then have "rfirst is_heading (takeWhile (\<lambda>l. \<not> is_line_separator l) lines) = Some h"
    using assms(1,4,5) by (simp add: rfirst_last)
  from get_columns_of_heading [OF this assms(4)] obtain cols where c:
    "get_columns lines = Inr cols" "length cols = length (str_split h)" "cols \<noteq> []"
    "\<forall>i<length cols. name (cols ! i) = str_split h ! i"
    "\<forall>i<length cols. \<exists>k. start (cols ! i) = int k \<and> str_index h (str_split h ! i) = Inr k"
    "\<forall>i<length cols. end_idx (cols ! i) =
            (if Suc i < length cols then Some (start (cols ! Suc i) - 1) else None)"
    by blast
  have names: "map name cols = str_split h"
    using c(2,4) by (simp add: list_eq_iff_nth_eq)
  have starts: "\<exists>k. start (cols ! i) = int k \<and> startswith (drop k h) (name (cols ! i))
            \<and> (\<forall>j<k. \<not> startswith (drop j h) (name (cols ! i)))" if "i < length cols" for i
  proof -
    from that c(5) obtain k where k: "start (cols ! i) = int k" "str_index h (str_split h ! i) = Inr k"
      by blast
    from str_index_Inr [OF k(2)] k(1) c(4) that show ?thesis by auto
  qed
  have ends: "end_idx (cols ! i) = Some (start (cols ! Suc i) - 1)" if "Suc i < length cols" for i
    using that c(6) by simp
  have "length cols - 1 < length cols" "\<not> Suc (length cols - 1) < length cols"
    using c(3) by simp_all
  with c(6) have "end_idx (cols ! (length cols - 1)) = None"
    by presburger
  then have lst: "end_idx (last cols) = None"
    using c(3) by (simp add: last_conv_nth)
  show ?thesis using c(1,3) names starts ends lst by blast
qed

theorem get_columns_layout_witness:
  "\<exists>cols. get_columns [''Windows'', ''Status Local Remote'', '''', ''---'', ''OK Z: x''] = Inr cols
     \<and> map name cols = [''Status'', ''Local'', ''Remote'']
     \<and> end_idx (last cols) = None"
  using get_columns_layout [of "[''Windows'', ''Status Local Remote'', '''', ''---'', ''OK Z: x'']"
      "[''Windows'']" "''Status Local Remote''" "['''']" "[''---'', ''OK Z: x'']"]
  by (simp add: is_line_separator_def is_heading_def char_defs str_split_def)
    (elim exE conjE, rule exI, intro conjI, assumption+)

text \<open>
  Claim C6 as stated fails: the test is on the first character of the line, not on its
  first character that is not a space. The second line below is the last line before the
  separator whose first non-space character is alphabetic, and the columns are those of
  the first line.
\<close>

theorem get_columns_skips_indented_heading:
  "(case dropWhile (\<lambda>c. c = CHR '' '') ''  Status Local Remote'' of
      [] \<Rightarrow> False | c # _ \<Rightarrow> isalpha c)
   \<and> get_columns [''Local Remote'', ''  Status Local Remote'', ''---''] =
       Inr [\<lparr>name = ''Local'', start = 0, end_idx = Some 5\<rparr>,
            \<lparr>name = ''Remote'', start = 6, end_idx = None\<rparr>]"
  by (simp add: get_columns_def take_while_def not_pred_def rfirst_def is_line_separator_def
      is_heading_def char_defs str_split_def startswith_def)

section \<open>Rows\<close>

lemma dropWhile_keeps_last:
  "xs \<noteq> [] \<Longrightarrow> \<not> P (last xs) \<Longrightarrow> dropWhile P xs \<noteq> [] \<and> last (dropWhile P xs) = last xs"
  by (induction xs) (auto split: if_splits)

lemma lstrip_rstrip: "lstrip (rstrip (lstrip s)) = rstrip (lstrip s)"
proof (cases "dropWhile isspace s")
  case Nil
  show ?thesis unfolding lstrip_def rstrip_def Nil by simp
next
  case (Cons c cs)
  have c: "\<not> isspace c"
    using dropWhile_head [of isspace s] unfolding Cons by simp
  have "rev (c # cs) \<noteq> []" "\<not> isspace (last (rev (c # cs)))" using c by simp_all
  from dropWhile_keeps_last [of "rev (c # cs)" isspace, OF this]
  have d: "dropWhile isspace (rev (c # cs)) \<noteq> []" "last (dropWhile isspace (rev (c # cs))) = c"
    by simp_all
  then have "hd (rev (dropWhile isspace (rev (c # cs)))) = c"
    by (simp add: hd_rev)
  with c d(1) have "dropWhile isspace (rev (dropWhile isspace (rev (c # cs))))
      = rev (dropWhile isspace (rev (c # cs)))"
    by (cases "rev (dropWhile isspace (rev (c # cs)))") simp_all
  then show ?thesis unfolding lstrip_def rstrip_def Cons .
qed

lemma strip_strip: "strip (strip s) = strip s"
proof -
  have "strip (strip s) = rstrip (lstrip (rstrip (lstrip s)))" by (simp add: strip_def)
  also have "\<dots> = rstrip (rstrip (lstrip s))" by (simp add: lstrip_rstrip)
  also have "\<dots> = rstrip (lstrip s)" by (simp add: rstrip_def)
  finally show ?thesis by (simp add: strip_def)
qed

lemma first_snoc:
  "first P (xs @ [x]) =
     (case first P xs of None \<Rightarrow> (if P x then Some x else None) | Some y \<Rightarrow> Some y)"
  by (induction xs) simp_all

lemma first_Some_mem: "first P xs = Some x \<Longrightarrow> x \<in> set xs \<and> P x"
  by (induction xs) (auto split: if_splits)

lemma raw_dict_fold:
  "fold (\<lambda>column d. d(name column \<mapsto> column_extract column line)) cols m k =
     (case first (\<lambda>c. name c = k) (rev cols) of
        None \<Rightarrow> m k
      | Some c \<Rightarrow> Some (column_extract c line))"
proof (induction cols arbitrary: m)
  case Nil
  then show ?case by simp
next
  case (Cons c cols)
  let ?f = "\<lambda>column d. d(name column \<mapsto> column_extract column line)"
  have "fold ?f (c # cols) m k = fold ?f cols (m(name c \<mapsto> column_extract c line)) k"
    by (simp del: fun_upd_apply)
  also have "\<dots> = (case first (\<lambda>c. name c = k) (rev cols) of
        None \<Rightarrow> (m(name c \<mapsto> column_extract c line)) k
      | Some c \<Rightarrow> Some (column_extract c line))"
    by (rule Cons.IH)
  also have "\<dots> = (case first (\<lambda>c. name c = k) (rev (c # cols)) of
        None \<Rightarrow> m k
      | Some c \<Rightarrow> Some (column_extract c line))"
    by (simp add: first_snoc split: option.splits)
  finally show ?case .
qed

lemma raw_dict_lookup:
  "raw_dict line cols k =
     (case rfirst (\<lambda>c. name c = k) cols of None \<Rightarrow> None | Some c \<Rightarrow> Some (column_extract c line))"
  by (simp add: raw_dict_def raw_dict_fold rfirst_def)

lemma raw_dict_dom: "dom (raw_dict line cols) = name ` set cols"
proof -
  have "raw_dict line cols k = None \<longleftrightarrow> k \<notin> name ` set cols" for k
  proof (cases "rfirst (\<lambda>c. name c = k) cols")
    case None
    then show ?thesis
      using rfirst_None [of "\<lambda>c. name c = k" cols]
      by (auto simp: raw_dict_lookup list_all_iff)
  next
    case (Some c)
    then have "c \<in> set cols \<and> name c = k"
      using first_Some_mem [of "\<lambda>c. name c = k" "rev cols" c] by (simp add: rfirst_def)
    with Some show ?thesis by (auto simp: raw_dict_lookup)
  qed
  then show ?thesis by (auto simp: dom_def)
qed

lemma raw_dict_stripped: "raw_dict line cols k = Some v \<Longrightarrow> strip v = v"
  by (auto simp: raw_dict_lookup column_extract_def strip_strip split: option.splits)

lemma parse_singleline_row_eq:
  "parse_singleline_row line cols =
     (case raw_dict line cols ''Local'' of
        None \<Rightarrow> Inl KeyError
      | Some a \<Rightarrow>
     (case raw_dict line cols ''Remote'' of
        None \<Rightarrow> Inl KeyError
      | Some b \<Rightarrow>
     (case raw_dict line cols ''Status'' of
        None \<Rightarrow> Inl KeyError
      | Some c \<Rightarrow> Inr [''local'' \<mapsto> a, ''remote'' \<mapsto> b, ''status'' \<mapsto> c])))"
  by (simp add: parse_singleline_row_def rekey_dict_def
      MAP_RAW_COLUMNS_TO_STANDARD_COLUMNS_def getitem_def split: option.splits)

lemma parse_singleline_row_Inr:
  assumes "{''Local'', ''Remote'', ''Status''} \<subseteq> name ` set cols"
  shows "\<exists>r. parse_singleline_row line cols = Inr r
           \<and> dom r = {''local'', ''remote'', ''status''}
           \<and> (\<forall>v\<in>ran r. strip v = v)"
proof -
  from assms have "''Local'' \<in> dom (raw_dict line cols)" "''Remote'' \<in> dom (raw_dict line cols)"
    "''Status'' \<in> dom (raw_dict line cols)"
    by (simp_all add: raw_dict_dom)
  then obtain a b c where v: "raw_dict line cols ''Local'' = Some a"
    "raw_dict line cols ''Remote'' = Some b" "raw_dict line cols ''Status'' = Some c"
    by blast
  have r: "parse_singleline_row line cols = Inr [''local'' \<mapsto> a, ''remote'' \<mapsto> b, ''status'' \<mapsto> c]"
    by (simp add: parse_singleline_row_eq v)
  have s: "strip a = a" "strip b = b" "strip c = c"
    using v by (auto dest: raw_dict_stripped)
  have "dom [''local'' \<mapsto> a, ''remote'' \<mapsto> b, ''status'' \<mapsto> c] = {''local'', ''remote'', ''status''}"
    by auto
  moreover have "\<forall>v\<in>ran [''local'' \<mapsto> a, ''remote'' \<mapsto> b, ''status'' \<mapsto> c]. strip v = v"
    using s by (auto simp: ran_def split: if_splits)
  ultimately show ?thesis using r by blast
qed

lemma parse_singleline_row_Inl:
  assumes "\<not> {''Local'', ''Remote'', ''Status''} \<subseteq> name ` set cols"
  shows "parse_singleline_row line cols = Inl KeyError"
proof -
  from assms have "''Local'' \<notin> dom (raw_dict line cols) \<or> ''Remote'' \<notin> dom (raw_dict line cols)
    \<or> ''Status'' \<notin> dom (raw_dict line cols)"
    unfolding raw_dict_dom by blast
  then have "raw_dict line cols ''Local'' = None \<or> raw_dict line cols ''Remote'' = None
    \<or> raw_dict line cols ''Status'' = None"
    by blast
  then show ?thesis
    unfolding parse_singleline_row_eq by (auto split: option.splits)
qed

lemma map_name_update:
  "name x = name (xs ! i) \<Longrightarrow> map name (xs[i := x]) = map name xs"
  by (induction xs arbitrary: i) (auto split: nat.splits)

lemma custom_columns_eq:
  "2 \<le> length cols \<Longrightarrow>
     custom_columns line1 cols =
       Inr (cols[length cols - 2 := (cols ! (length cols - 2))\<lparr>end_idx := Some (int (length line1))\<rparr>,
                 length cols - 1 := (cols ! (length cols - 1))\<lparr>start := int (length line1) + 1\<rparr>])"
proof -
  assume n: "2 \<le> length cols"
  then have "length cols - 2 \<noteq> length cols - 1" by arith
  then show ?thesis
    using n by (simp add: custom_columns_def Let_def)
qed

lemma custom_columns_names:
  assumes "custom_columns line1 cols = Inr cs"
  shows "map name cs = map name cols"
proof -
  from assms have n: "2 \<le> length cols"
    by (simp add: custom_columns_def Let_def split: if_splits)
  let ?cs1 = "cols[length cols - 2 := (cols ! (length cols - 2))\<lparr>end_idx := Some (int (length line1))\<rparr>]"
  from assms n have cs: "cs = ?cs1[length cols - 1 := (cols ! (length cols - 1))\<lparr>start := int (length line1) + 1\<rparr>]"
    by (simp add: custom_columns_eq)
  have "length cols - 2 \<noteq> length cols - 1" using n by arith
  then have "name ((cols ! (length cols - 1))\<lparr>start := int (length line1) + 1\<rparr>) = name (?cs1 ! (length cols - 1))"
    by simp
  then have "map name cs = map name ?cs1"
    unfolding cs by (rule map_name_update)
  also have "\<dots> = map name cols"
    by (rule map_name_update) simp
  finally show ?thesis .
qed

lemma custom_columns_Inr:
  "2 \<le> length cols \<Longrightarrow> \<exists>cs. custom_columns line1 cols = Inr cs"
  by (simp add: custom_columns_def Let_def)

lemma custom_columns_Inl:
  "length cols < 2 \<Longrightarrow> custom_columns line1 cols = Inl IndexError"
  by (simp add: custom_columns_def Let_def)

lemma three_titles_length:
  assumes "{''Local'', ''Remote'', ''Status''} \<subseteq> name ` set cols"
  shows "3 \<le> length cols"
proof -
  have "card {''Local'', ''Remote'', ''Status''} = 3" by simp
  moreover have "card {''Local'', ''Remote'', ''Status''} \<le> card (name ` set cols)"
    using assms by (intro card_mono) simp_all
  moreover have "card (name ` set cols) \<le> card (set cols)" by (intro card_image_le) simp
  moreover have "card (set cols) \<le> length cols" by (rule card_length)
  ultimately show ?thesis by linarith
qed

lemma parse_multiline_row_Inr:
  assumes "{''Local'', ''Remote'', ''Status''} \<subseteq> name ` set cols"
  shows "\<exists>r. parse_multiline_row line1 line2 cols = Inr r
           \<and> dom r = {''local'', ''remote'', ''status''}
           \<and> (\<forall>v\<in>ran r. strip v = v)"
proof -
  from three_titles_length [OF assms] have "2 \<le> length cols" by simp
  then obtain cs where cs: "custom_columns line1 cols = Inr cs"
    using custom_columns_Inr by blast
  then have "map name cs = map name cols" by (rule custom_columns_names)
  then have "name ` set cs = name ` set cols" by (metis set_map)
  with assms have "{''Local'', ''Remote'', ''Status''} \<subseteq> name ` set cs" by simp
  from parse_singleline_row_Inr [OF this, of "line1 @ '' '' @ strip line2"] cs
  show ?thesis by (simp add: parse_multiline_row_def)
qed

lemma parse_multiline_row_Inl:
  assumes "\<not> {''Local'', ''Remote'', ''Status''} \<subseteq> name ` set cols"
  shows "parse_multiline_row line1 line2 cols = Inl KeyError
         \<or> (length cols < 2 \<and> parse_multiline_row line1 line2 cols = Inl IndexError)"
proof (cases "custom_columns line1 cols")
  case (Inl e)
  then have "e = IndexError \<and> length cols < 2"
    by (simp add: custom_columns_def Let_def split: if_splits)
  with Inl show ?thesis by (simp add: parse_multiline_row_def)
next
  case (Inr cs)
  then have "map name cs = map name cols" by (rule custom_columns_names)
  then have "name ` set cs = name ` set cols" by (metis set_map)
  with assms have "\<not> {''Local'', ''Remote'', ''Status''} \<subseteq> name ` set cs" by simp
  from parse_singleline_row_Inl [OF this, of "line1 @ '' '' @ strip line2"] Inr
  show ?thesis by (simp add: parse_multiline_row_def)
qed

lemma build_loop_Inr:
  assumes "{''Local'', ''Remote'', ''Status''} \<subseteq> name ` set cols"
  shows "\<exists>t' rs. build_loop cols pairs t = Inr t' \<and> rows t' = rows t @ rs
           \<and> (\<forall>r\<in>set rs. dom r = {''local'', ''remote'', ''status''} \<and> (\<forall>v\<in>ran r. strip v = v))"
proof (induction pairs arbitrary: t)
  case Nil
  then show ?case by simp
next
  case (Cons p pairs)
  obtain this_row next_row where p: "p = (this_row, next_row)" by (cases p)
  show ?case
  proof (cases "startswith this_row '' ''")
    case True
    with Cons.IH [of t] p show ?thesis by simp
  next
    case False
    let ?res = "if startswith next_row '' ''
                then parse_multiline_row this_row next_row cols
                else parse_singleline_row this_row cols"
    obtain r where r: "?res = Inr r" "dom r = {''local'', ''remote'', ''status''}"
      "\<forall>v\<in>ran r. strip v = v"
      using parse_multiline_row_Inr [OF assms, of this_row next_row]
        parse_singleline_row_Inr [OF assms, of this_row]
      by (cases "startswith next_row '' ''") auto
    from Cons.IH [of "add_row t r"] obtain t' rs where t':
      "build_loop cols pairs (add_row t r) = Inr t'" "rows t' = rows (add_row t r) @ rs"
      "\<forall>r\<in>set rs. dom r = {''local'', ''remote'', ''status''} \<and> (\<forall>v\<in>ran r. strip v = v)"
      by blast
    have "build_loop cols (p # pairs) t = Inr t'"
      using False r(1) t'(1) unfolding p build_loop.simps by simp
    moreover have "rows t' = rows t @ (r # rs)"
      using t'(2) by (simp add: add_row_def)
    moreover have "\<forall>r\<in>set (r # rs). dom r = {''local'', ''remote'', ''status''} \<and> (\<forall>v\<in>ran r. strip v = v)"
      using r(2,3) t'(3) by simp
    ultimately show ?thesis by blast
  qed
qed

lemma build_loop_no_row:
  "list_all (\<lambda>p. startswith (fst p) '' '') pairs \<Longrightarrow> build_loop cols pairs t = Inr t"
  by (induction pairs arbitrary: t) auto

lemma build_loop_Inl:
  assumes "\<not> {''Local'', ''Remote'', ''Status''} \<subseteq> name ` set cols"
    and "\<not> list_all (\<lambda>p. startswith (fst p) '' '') pairs"
  shows "build_loop cols pairs t = Inl KeyError
         \<or> (length cols < 2 \<and> build_loop cols pairs t = Inl IndexError)"
  using assms(2)
proof (induction pairs arbitrary: t)
  case Nil
  then show ?case by simp
next
  case (Cons p pairs)
  obtain this_row next_row where p: "p = (this_row, next_row)" by (cases p)
  show ?case
  proof (cases "startswith this_row '' ''")
    case True
    with Cons p show ?thesis by simp
  next
    case False
    let ?res = "if startswith next_row '' ''
                then parse_multiline_row this_row next_row cols
                else parse_singleline_row this_row cols"
    have "?res = Inl KeyError \<or> (length cols < 2 \<and> ?res = Inl IndexError)"
      using parse_multiline_row_Inl [OF assms(1), of this_row next_row]
        parse_singleline_row_Inl [OF assms(1), of this_row]
      by (cases "startswith next_row '' ''") auto
    then show ?thesis
      using False unfolding p build_loop.simps by auto
  qed
qed

lemma body_pairs_fst:
  "map fst (zip body (drop 1 body @ [[]])) = body"
proof -
  have "length (drop 1 body @ [[]]) \<ge> length body" by simp
  then show ?thesis by (simp add: map_fst_zip_take)
qed

lemma body_pairs_all:
  "list_all (\<lambda>p. P (fst p)) (zip body (drop 1 body @ [[]])) = list_all P body"
proof -
  have "list_all (\<lambda>p. P (fst p)) (zip body (drop 1 body @ [[]]))
        = list_all P (map fst (zip body (drop 1 body @ [[]])))"
    by (simp add: list_all_iff)
  then show ?thesis by (simp only: body_pairs_fst)
qed

lemma build_Inr:
  assumes "{''Local'', ''Remote'', ''Status''} \<subseteq> name ` set cols"
  shows "\<exists>t. build_net_use_table_from_parts cols body = Inr t
           \<and> (\<forall>r\<in>set (rows t). dom r = {''local'', ''remote'', ''status''} \<and> (\<forall>v\<in>ran r. strip v = v))"
  using build_loop_Inr [OF assms, of "zip body (drop 1 body @ [[]])" new_table]
  by (auto simp: build_net_use_table_from_parts_def new_table_def)

lemma build_no_row:
  assumes "list_all (\<lambda>l. startswith l '' '') body"
  shows "build_net_use_table_from_parts cols body = Inr new_table"
proof -
  have "list_all (\<lambda>p. startswith (fst p) '' '') (zip body (drop 1 body @ [[]]))"
    using assms body_pairs_all [of "\<lambda>l. startswith l '' ''" body] by blast
  then show ?thesis
    unfolding build_net_use_table_from_parts_def by (rule build_loop_no_row)
qed

lemma build_Inl:
  assumes "\<not> {''Local'', ''Remote'', ''Status''} \<subseteq> name ` set cols"
    and "\<not> list_all (\<lambda>l. startswith l '' '') body"
  shows "build_net_use_table_from_parts cols body = Inl KeyError
         \<or> (length cols < 2 \<and> build_net_use_table_from_parts cols body = Inl IndexError)"
proof -
  have "\<not> list_all (\<lambda>p. startswith (fst p) '' '') (zip body (drop 1 body @ [[]]))"
    using assms(2) body_pairs_all [of "\<lambda>l. startswith l '' ''" body] by blast
  then show ?thesis
    unfolding build_net_use_table_from_parts_def by (rule build_loop_Inl [OF assms(1)])
qed

section \<open>Parsing a table\<close>

lemma get_columns_cases:
  "(list_all (\<lambda>l. \<not> is_heading l) (takeWhile (\<lambda>l. \<not> is_line_separator l) lines)
      \<and> get_columns lines = Inl AttributeError)
   \<or> (\<not> list_all (\<lambda>l. \<not> is_heading l) (takeWhile (\<lambda>l. \<not> is_line_separator l) lines)
      \<and> (\<exists>cols. get_columns lines = Inr cols))"
proof (cases "rfirst is_heading (takeWhile (\<lambda>l. \<not> is_line_separator l) lines)")
  case None
  then have "get_columns lines = Inl AttributeError"
    by (simp add: get_columns_def take_while_def not_pred_separator)
  with None show ?thesis by (simp add: rfirst_None)
next
  case (Some h)
  then have h: "is_heading h"
    using first_Some_mem [of is_heading _ h] by (simp add: rfirst_def)
  from get_columns_of_heading [OF Some h] obtain cols where "get_columns lines = Inr cols"
    by blast
  moreover have "\<not> list_all (\<lambda>l. \<not> is_heading l) (takeWhile (\<lambda>l. \<not> is_line_separator l) lines)"
    using Some rfirst_None [of is_heading "takeWhile (\<lambda>l. \<not> is_line_separator l) lines"] by simp
  ultimately show ?thesis by blast
qed

lemmas eval_defs =
  parse_populated_net_use_table_def build_net_use_table_from_parts_def new_table_def add_row_def
  parse_singleline_row_def parse_multiline_row_def custom_columns_def raw_dict_def
  rekey_dict_def MAP_RAW_COLUMNS_TO_STANDARD_COLUMNS_def getitem_def column_extract_def
  get_columns_def get_body_def take_while_def drop_while_def not_pred_def rfirst_def
  is_line_separator_def is_heading_def LAST_TABLE_LINE_def
  str_split_def str_split_on_def strip_def lstrip_def rstrip_def slice_def clip_def
  startswith_def char_defs

text \<open>
  Claim C4, amended. With \<open>lines\<close> the lines of the input, stripped on the right, parsing
  a populated table fails in exactly two cases. When no line before the first separator
  (no line at all, when there is no separator) begins with an alphabetic character, it
  fails with the AttributeError of \<^verbatim>\<open>headings.split()\<close>. When the header lacks one of the
  titles \<^verbatim>\<open>Local\<close>, \<^verbatim>\<open>Remote\<close>, \<^verbatim>\<open>Status\<close> and the body has a line that does not begin with a
  space, so that a row is extracted, it fails with a KeyError or an IndexError, the latter
  only under a header of fewer than two columns. No failure is a FormatError. An input
  with a header line and no separator is not a failure: it parses to the empty table.
\<close>

theorem parse_populated_failure:
  assumes "lines = map rstrip (str_split_on s (CHR 0x0A))"
  shows "((parse_populated_net_use_table s = Inl AttributeError) =
            list_all (\<lambda>l. \<not> is_heading l) (takeWhile (\<lambda>l. \<not> is_line_separator l) lines))
     \<and> ((parse_populated_net_use_table s = Inl KeyError
           \<or> parse_populated_net_use_table s = Inl IndexError) =
            (\<exists>cols. get_columns lines = Inr cols
                   \<and> \<not> {''Local'', ''Remote'', ''Status''} \<subseteq> name ` set cols
                   \<and> \<not> list_all (\<lambda>l. startswith l '' '') (get_body lines)))
     \<and> (parse_populated_net_use_table s = Inl IndexError
          \<longrightarrow> (\<exists>cols. get_columns lines = Inr cols \<and> length cols < 2))
     \<and> (\<forall>e. parse_populated_net_use_table s = Inl e
          \<longrightarrow> e = AttributeError \<or> e = KeyError \<or> e = IndexError)
     \<and> parse_populated_net_use_table s \<noteq> Inl FormatError
     \<and> ((\<exists>e. parse_populated_net_use_table s = Inl e) =
            (list_all (\<lambda>l. \<not> is_heading l) (takeWhile (\<lambda>l. \<not> is_line_separator l) lines)
             \<or> (\<exists>cols. get_columns lines = Inr cols
                   \<and> \<not> {''Local'', ''Remote'', ''Status''} \<subseteq> name ` set cols
                   \<and> \<not> list_all (\<lambda>l. startswith l '' '') (get_body lines))))
     \<and> (\<not> list_all (\<lambda>l. \<not> is_heading l) lines \<and> list_all (\<lambda>l. \<not> is_line_separator l) lines
          \<longrightarrow> parse_populated_net_use_table s = Inr new_table)"
proof -
  let ?nohead = "list_all (\<lambda>l. \<not> is_heading l) (takeWhile (\<lambda>l. \<not> is_line_separator l) lines)"
  let ?P = "parse_populated_net_use_table s"
  have p: "?P =
      (case get_columns lines of Inl e \<Rightarrow> Inl e
       | Inr columns \<Rightarrow> build_net_use_table_from_parts columns (get_body lines))"
    unfolding parse_populated_net_use_table_def assms Let_def by (rule refl)
  have nosep: "?P = Inr new_table"
    if "\<not> list_all (\<lambda>l. \<not> is_heading l) lines" "list_all (\<lambda>l. \<not> is_line_separator l) lines"
  proof -
    have tw: "takeWhile (\<lambda>l. \<not> is_line_separator l) lines = lines"
      using that(2) by (simp add: list_all_iff)
    have dw: "dropWhile (\<lambda>l. \<not> is_line_separator l) lines = []"
      using that(2) by (simp add: list_all_iff)
    have b: "get_body lines = []" unfolding get_body_eq dw by simp
    from get_columns_cases [of lines] that(1) tw obtain cols where "get_columns lines = Inr cols"
      by auto
    then show ?thesis using b by (simp add: p build_no_row)
  qed
  then have c7: "\<not> list_all (\<lambda>l. \<not> is_heading l) lines \<and> list_all (\<lambda>l. \<not> is_line_separator l) lines
          \<longrightarrow> ?P = Inr new_table"
    by blast
  let ?rowfail = "\<exists>cols. get_columns lines = Inr cols
                   \<and> \<not> {''Local'', ''Remote'', ''Status''} \<subseteq> name ` set cols
                   \<and> \<not> list_all (\<lambda>l. startswith l '' '') (get_body lines)"
  let ?short = "\<exists>cols. get_columns lines = Inr cols \<and> length cols < 2"
  have c: "((?P = Inl AttributeError) = ?nohead)
     \<and> ((?P = Inl KeyError \<or> ?P = Inl IndexError) = ?rowfail)
     \<and> (?P = Inl IndexError \<longrightarrow> ?short)
     \<and> (\<forall>e. ?P = Inl e \<longrightarrow> e = AttributeError \<or> e = KeyError \<or> e = IndexError)
     \<and> ?P \<noteq> Inl FormatError
     \<and> ((\<exists>e. ?P = Inl e) = (?nohead \<or> ?rowfail))"
  proof (cases ?nohead)
    case True
    with get_columns_cases [of lines] have g: "get_columns lines = Inl AttributeError" by blast
    then have r: "?P = Inl AttributeError" by (simp add: p)
    from g have "\<not> ?rowfail" "\<not> ?short" by simp_all
    with True r show ?thesis by simp
  next
    case False
    with get_columns_cases [of lines] obtain cols where c: "get_columns lines = Inr cols" by blast
    then have pb: "?P = build_net_use_table_from_parts cols (get_body lines)"
      by (simp add: p)
    have rf: "?rowfail = (\<not> {''Local'', ''Remote'', ''Status''} \<subseteq> name ` set cols
                   \<and> \<not> list_all (\<lambda>l. startswith l '' '') (get_body lines))"
      using c by simp
    have sh: "?short = (length cols < 2)" using c by simp
    show ?thesis
    proof (cases "{''Local'', ''Remote'', ''Status''} \<subseteq> name ` set cols")
      case True
      from build_Inr [OF True, of "get_body lines"] obtain t where
        "?P = Inr t" unfolding pb by blast
      with False True show ?thesis unfolding rf sh by simp
    next
      case nt: False
      show ?thesis
      proof (cases "list_all (\<lambda>l. startswith l '' '') (get_body lines)")
        case True
        then have "?P = Inr new_table"
          unfolding pb by (rule build_no_row)
        with False True show ?thesis unfolding rf sh by simp
      next
        case nb: False
        from build_Inl [OF nt nb] have
          "?P = Inl KeyError \<or> (length cols < 2 \<and> ?P = Inl IndexError)"
          unfolding pb .
        with False nt nb show ?thesis unfolding rf sh by auto
      qed
    qed
  qed
  from c c7 show ?thesis by blast
qed

theorem parse_populated_failure_witness:
  "parse_populated_net_use_table (''  Status'' @ [CHR 0x0A] @ ''-------'' @ [CHR 0x0A] @ ''OK Z:'')
     = Inl AttributeError
   \<and> parse_populated_net_use_table (''Local'' @ [CHR 0x0A] @ ''-----'' @ [CHR 0x0A] @ ''Z:'' @ [CHR 0x0A] @ '' x'')
     = Inl IndexError"
  using parse_populated_failure [of "[''  Status'', ''-------'', ''OK Z:'']"
      "''  Status'' @ [CHR 0x0A] @ ''-------'' @ [CHR 0x0A] @ ''OK Z:''"]
    parse_populated_failure [of "[''Local'', ''-----'', ''Z:'', '' x'']"
      "''Local'' @ [CHR 0x0A] @ ''-----'' @ [CHR 0x0A] @ ''Z:'' @ [CHR 0x0A] @ '' x''"]
  by (simp add: eval_defs)

text \<open>
  Claim C4 as stated fails in both directions. The first input has a header line and no
  separator line at all, and parses to the empty table. The second has a header line and a
  separator, and fails, with a KeyError, because the header has no title \<^verbatim>\<open>Status\<close>.
\<close>

theorem parse_populated_without_separator:
  "\<not> list_ex is_line_separator (map rstrip (str_split_on ''Local Remote Status'' (CHR 0x0A)))
   \<and> parse_populated_net_use_table ''Local Remote Status'' = Inr \<lparr>rows = []\<rparr>
   \<and> list_ex is_heading (takeWhile (\<lambda>l. \<not> is_line_separator l)
        (map rstrip (str_split_on (''Local Remote'' @ [CHR 0x0A] @ ''---'' @ [CHR 0x0A] @ ''Z: x'') (CHR 0x0A))))
   \<and> list_ex is_line_separator
        (map rstrip (str_split_on (''Local Remote'' @ [CHR 0x0A] @ ''---'' @ [CHR 0x0A] @ ''Z: x'') (CHR 0x0A)))
   \<and> parse_populated_net_use_table (''Local Remote'' @ [CHR 0x0A] @ ''---'' @ [CHR 0x0A] @ ''Z: x'')
       = Inl KeyError"
  by (simp add: eval_defs)

text \<open>
  Claim C8. When the column layout detected in the input has the titles \<^verbatim>\<open>Local\<close>,
  \<^verbatim>\<open>Remote\<close> and \<^verbatim>\<open>Status\<close> among its names, parsing succeeds and every row of the table has
  exactly the keys \<^verbatim>\<open>local\<close>, \<^verbatim>\<open>remote\<close> and \<^verbatim>\<open>status\<close>, each bound to a string that
  \<^verbatim>\<open>strip\<close> leaves unchanged; single-line rows, two-line rows and headers with further
  columns alike.
\<close>

theorem rows_have_standard_keys:
  assumes "get_columns (map rstrip (str_split_on s (CHR 0x0A))) = Inr columns"
    and "{''Local'', ''Remote'', ''Status''} \<subseteq> name ` set columns"
  shows "\<exists>t. parse_net_use_table s = Inr t
           \<and> (\<forall>r\<in>set (rows t). dom r = {''local'', ''remote'', ''status''}
                 \<and> (\<forall>v\<in>ran r. strip v = v))"
proof (cases "contains s EMPTY_TABLE_INDICATOR")
  case True
  then have "parse_net_use_table s = Inr new_table" by (simp add: parse_net_use_table_def)
  then show ?thesis by (simp add: new_table_def)
next
  case False
  then have "parse_net_use_table s =
      build_net_use_table_from_parts columns (get_body (map rstrip (str_split_on s (CHR 0x0A))))"
    using assms(1) by (simp add: parse_net_use_table_def parse_populated_net_use_table_def)
  with build_Inr [OF assms(2)] show ?thesis by simp
qed

theorem rows_have_standard_keys_witness:
  "\<exists>t. parse_net_use_table
          (''Status Local Remote'' @ [CHR 0x0A] @ ''-------------------'' @ [CHR 0x0A]
           @ ''OK     Z:    x'' @ [CHR 0x0A] @ ''OK           y'' @ [CHR 0x0A] @ ''   w'') = Inr t
     \<and> (\<forall>r\<in>set (rows t). dom r = {''local'', ''remote'', ''status''}
           \<and> (\<forall>v\<in>ran r. strip v = v))"
  using rows_have_standard_keys [of
      "''Status Local Remote'' @ [CHR 0x0A] @ ''-------------------'' @ [CHR 0x0A]
           @ ''OK     Z:    x'' @ [CHR 0x0A] @ ''OK           y'' @ [CHR 0x0A] @ ''   w''"
      "[\<lparr>name = ''Status'', start = 0, end_idx = Some 6\<rparr>,
        \<lparr>name = ''Local'', start = 7, end_idx = Some 12\<rparr>,
        \<lparr>name = ''Remote'', start = 13, end_idx = None\<rparr>]"]
  by (simp add: get_columns_def take_while_def not_pred_def rfirst_def
      is_line_separator_def is_heading_def str_split_def str_split_on_def rstrip_def
      startswith_def char_defs)

section \<open>Rows of two lines\<close>

lemma build_loop_append:
  "build_loop cols (ps @ qs) t =
     (case build_loop cols ps t of Inl e \<Rightarrow> Inl e | Inr t' \<Rightarrow> build_loop cols qs t')"
proof (induction ps arbitrary: t)
  case Nil
  then show ?case by simp
next
  case (Cons p ps)
  obtain a b where p: "p = (a, b)" by (cases p)
  show ?case
    unfolding p append_Cons build_loop.simps
    by (simp add: Cons.IH split: sum.splits)
qed

lemma build_loop_rows:
  "build_loop cols ps t = Inr t' \<Longrightarrow>
     \<exists>rs. rows t' = rows t @ rs \<and> length rs = length (filter (\<lambda>p. \<not> startswith (fst p) '' '') ps)
       \<and> (\<forall>u. build_loop cols ps u = Inr (u\<lparr>rows := rows u @ rs\<rparr>))"
proof (induction ps arbitrary: t)
  case Nil
  then show ?case by simp
next
  case (Cons p ps)
  obtain a b where p: "p = (a, b)" by (cases p)
  show ?case
  proof (cases "startswith a '' ''")
    case True
    with Cons.prems p have "build_loop cols ps t = Inr t'" by simp
    from Cons.IH [OF this] True p show ?thesis by simp
  next
    case False
    let ?res = "if startswith b '' '' then parse_multiline_row a b cols else parse_singleline_row a cols"
    from Cons.prems False p obtain r where r: "?res = Inr r"
      by (cases ?res) simp_all
    with Cons.prems False p have "build_loop cols ps (add_row t r) = Inr t'" by simp
    from Cons.IH [OF this] obtain rs where rs: "rows t' = rows (add_row t r) @ rs"
      "length rs = length (filter (\<lambda>p. \<not> startswith (fst p) '' '') ps)"
      "\<forall>u. build_loop cols ps u = Inr (u\<lparr>rows := rows u @ rs\<rparr>)"
      by blast
    have "rows t' = rows t @ (r # rs)" using rs(1) by (simp add: add_row_def)
    moreover have "length (r # rs) = length (filter (\<lambda>p. \<not> startswith (fst p) '' '') (p # ps))"
      using rs(2) False p by simp
    moreover have "build_loop cols (p # ps) u = Inr (u\<lparr>rows := rows u @ (r # rs)\<rparr>)" for u
      using rs(3) r False unfolding p build_loop.simps by (simp add: add_row_def)
    ultimately show ?thesis by blast
  qed
qed

lemma build_loop_next_cong:
  "list_all2 (\<lambda>p q. fst p = fst q
       \<and> (snd p = snd q \<or> (\<not> startswith (snd p) '' '' \<and> \<not> startswith (snd q) '' ''))) ps qs
   \<Longrightarrow> build_loop cols ps t = build_loop cols qs t"
proof (induction ps qs arbitrary: t rule: list_all2_induct)
  case Nil
  then show ?case by simp
next
  case (Cons p ps q qs)
  obtain a b where p: "p = (a, b)" by (cases p)
  obtain a' b' where q: "q = (a', b')" by (cases q)
  from Cons(1) p q have "a' = a" "b = b' \<or> (\<not> startswith b '' '' \<and> \<not> startswith b' '' '')"
    by auto
  then show ?case
    unfolding p q build_loop.simps by (auto simp: Cons.IH split: sum.splits)
qed

lemma zip_next_Cons:
  "zip (x # zs) (drop 1 (x # zs) @ [e]) =
     (x, (case zs of [] \<Rightarrow> e | z # _ \<Rightarrow> z)) # zip zs (drop 1 zs @ [e])"
  by (cases zs) simp_all

lemma zip_next_append:
  "zip (xs @ y # ys) (drop 1 (xs @ y # ys) @ [e]) =
     zip xs (drop 1 xs @ [y]) @ zip (y # ys) (drop 1 (y # ys) @ [e])"
proof (induction xs)
  case Nil
  then show ?case by simp
next
  case (Cons x xs)
  have a: "(case xs @ y # ys of [] \<Rightarrow> e | z # _ \<Rightarrow> z) = (case xs of [] \<Rightarrow> y | z # _ \<Rightarrow> z)"
    by (cases xs) simp_all
  have "zip ((x # xs) @ y # ys) (drop 1 ((x # xs) @ y # ys) @ [e])
        = (x, (case xs of [] \<Rightarrow> y | z # _ \<Rightarrow> z)) # zip (xs @ y # ys) (drop 1 (xs @ y # ys) @ [e])"
    using zip_next_Cons [of x "xs @ y # ys" e] unfolding a by simp
  moreover have "zip (x # xs) (drop 1 (x # xs) @ [y])
        = (x, (case xs of [] \<Rightarrow> y | z # _ \<Rightarrow> z)) # zip xs (drop 1 xs @ [y])"
    by (rule zip_next_Cons)
  ultimately show ?case using Cons.IH by simp
qed

lemma zip_next_last:
  "\<not> startswith y '' '' \<Longrightarrow>
   list_all2 (\<lambda>p q. fst p = fst q
       \<and> (snd p = snd q \<or> (\<not> startswith (snd p) '' '' \<and> \<not> startswith (snd q) '' '')))
     (zip xs (drop 1 xs @ [y])) (zip xs (drop 1 xs @ [[]]))"
proof (induction xs)
  case Nil
  then show ?case by simp
next
  case (Cons x xs)
  have e: "\<not> startswith [] '' ''" by (simp add: startswith_def)
  show ?case
    unfolding zip_next_Cons using Cons e by (cases xs) simp_all
qed

lemma parse_singleline_row_lookup:
  assumes "parse_singleline_row line cols = Inr r"
    and "(raw, std) \<in> set MAP_RAW_COLUMNS_TO_STANDARD_COLUMNS"
  shows "r std = raw_dict line cols raw"
proof -
  from assms(1) obtain a b c where v: "raw_dict line cols ''Local'' = Some a"
    "raw_dict line cols ''Remote'' = Some b" "raw_dict line cols ''Status'' = Some c"
    "r = [''local'' \<mapsto> a, ''remote'' \<mapsto> b, ''status'' \<mapsto> c]"
    unfolding parse_singleline_row_eq by (auto split: option.splits)
  from assms(2) have "(raw, std) = (''Local'', ''local'') \<or> (raw, std) = (''Remote'', ''remote'')
      \<or> (raw, std) = (''Status'', ''status'')"
    by (simp add: MAP_RAW_COLUMNS_TO_STANDARD_COLUMNS_def)
  then show ?thesis using v by auto
qed

lemma slice_tail:
  "slice (cur @ '' '' @ rest) (int (length cur) + 1) None = rest"
proof -
  have "nat (int (length cur) + 1) = Suc (length cur)" by simp
  then show ?thesis by (simp add: slice_def clip_def)
qed

lemma build_row_count:
  assumes "build_net_use_table_from_parts cols body = Inr t"
  shows "length (rows t) = length (filter (\<lambda>l. \<not> startswith l '' '') body)"
proof -
  define ps where "ps = zip body (drop 1 body @ [[]])"
  have fst: "map fst ps = body" unfolding ps_def by (rule body_pairs_fst)
  from assms have "build_loop cols ps new_table = Inr t"
    by (simp add: build_net_use_table_from_parts_def ps_def)
  from build_loop_rows [OF this] obtain rs where "rows t = rows new_table @ rs"
    "length rs = length (filter (\<lambda>p. \<not> startswith (fst p) '' '') ps)"
    by blast
  then have "length (rows t) = length (filter (\<lambda>p. \<not> startswith (fst p) '' '') ps)"
    by (simp add: new_table_def)
  also have "\<dots> = length (filter (\<lambda>l. \<not> startswith l '' '') (map fst ps))"
    by (simp add: filter_map comp_def)
  finally show ?thesis by (simp only: fst)
qed

lemma raw_dict_last:
  assumes "cs \<noteq> []"
  shows "raw_dict line cs (name (last cs)) = Some (column_extract (last cs) line)"
proof -
  have "cs = butlast cs @ [last cs]" using assms by simp
  then have "rfirst (\<lambda>c. name c = name (last cs)) cs = Some (last cs)"
    using rfirst_last [of "\<lambda>c. name c = name (last cs)" "last cs" "[]" "butlast cs"] by simp
  then show ?thesis by (simp add: raw_dict_lookup)
qed

lemma custom_last:
  fixes cur nxt :: string
  assumes "2 \<le> length cols" and "end_idx (last cols) = None"
  defines "cs \<equiv> cols[length cols - 2 := (cols ! (length cols - 2))\<lparr>end_idx := Some (int (length cur))\<rparr>,
                 length cols - 1 := (cols ! (length cols - 1))\<lparr>start := int (length cur) + 1\<rparr>]"
  shows "raw_dict (cur @ '' '' @ strip nxt) cs (name (last cols)) = Some (strip nxt)"
proof -
  have ne: "cs \<noteq> []" "cols \<noteq> []" using assms(1) by (auto simp: cs_def)
  have len: "length cs = length cols" by (simp add: cs_def)
  have lc: "last cols = cols ! (length cols - 1)" using ne(2) by (simp add: last_conv_nth)
  have "last cs = cs ! (length cols - 1)" using ne(1) len by (simp add: last_conv_nth)
  also have "\<dots> = (cols ! (length cols - 1))\<lparr>start := int (length cur) + 1\<rparr>"
    using assms(1) by (simp add: cs_def)
  finally have l: "last cs = (last cols)\<lparr>start := int (length cur) + 1\<rparr>" by (simp add: lc)
  have "column_extract (last cs) (cur @ '' '' @ strip nxt) = strip nxt"
    unfolding l column_extract_def using assms(2) slice_tail [of cur "strip nxt"]
    by (simp add: strip_strip)
  moreover have "name (last cs) = name (last cols)" by (simp add: l)
  ultimately show ?thesis using raw_dict_last [OF ne(1), of "cur @ '' '' @ strip nxt"] by simp
qed

lemma slice_head:
  assumes "0 \<le> st"
  shows "slice (cur @ rest) st (Some (int (length cur))) = slice cur st None"
proof (cases "nat st \<le> length cur")
  case True
  with assms show ?thesis by (simp add: slice_def clip_def min_def)
next
  case False
  with assms show ?thesis by (simp add: slice_def clip_def min_def)
qed

lemma custom_second_last:
  fixes cur rest :: string
  assumes "2 \<le> length cols" and "0 \<le> start (cols ! (length cols - 2))"
  defines "cs \<equiv> cols[length cols - 2 := (cols ! (length cols - 2))\<lparr>end_idx := Some (int (length cur))\<rparr>,
                 length cols - 1 := (cols ! (length cols - 1))\<lparr>start := int (length cur) + 1\<rparr>]"
  shows "column_extract (cs ! (length cols - 2)) (cur @ '' '' @ rest)
           = strip (slice cur (start (cols ! (length cols - 2))) None)"
    and "name (cs ! (length cols - 2)) = name (cols ! (length cols - 2))"
proof -
  have ne: "length cols - 2 \<noteq> length cols - 1" using assms(1) by arith
  have c: "cs ! (length cols - 2) = (cols ! (length cols - 2))\<lparr>end_idx := Some (int (length cur))\<rparr>"
    using assms(1) ne by (simp add: cs_def)
  show "column_extract (cs ! (length cols - 2)) (cur @ '' '' @ rest)
           = strip (slice cur (start (cols ! (length cols - 2))) None)"
    unfolding c column_extract_def using slice_head [OF assms(2), of cur "'' '' @ rest"] by simp
  show "name (cs ! (length cols - 2)) = name (cols ! (length cols - 2))"
    unfolding c by simp
qed

lemma raw_dict_second_last:
  assumes "2 \<le> length cs" and "name (last cs) \<noteq> name (cs ! (length cs - 2))"
  shows "raw_dict line cs (name (cs ! (length cs - 2)))
           = Some (column_extract (cs ! (length cs - 2)) line)"
proof -
  have ne: "cs \<noteq> []" "butlast cs \<noteq> []"
    using assms(1) by (cases cs rule: rev_cases; auto)+
  have b: "last (butlast cs) = cs ! (length cs - 2)"
  proof -
    have "last (butlast cs) = butlast cs ! (length (butlast cs) - 1)"
      using ne(2) by (rule last_conv_nth)
    also have "\<dots> = cs ! (length cs - 2)"
      using assms(1) by (simp add: nth_butlast numeral_2_eq_2)
    finally show ?thesis .
  qed
  have "cs = butlast cs @ [last cs]" using ne(1) by simp
  also have "butlast cs = butlast (butlast cs) @ [last (butlast cs)]" using ne(2) by simp
  finally have d: "cs = butlast (butlast cs) @ cs ! (length cs - 2) # [last cs]"
    unfolding b by simp
  have "rfirst (\<lambda>c. name c = name (cs ! (length cs - 2)))
          (butlast (butlast cs) @ cs ! (length cs - 2) # [last cs]) = Some (cs ! (length cs - 2))"
    using assms(2) by (intro rfirst_last) simp_all
  then have "rfirst (\<lambda>c. name c = name (cs ! (length cs - 2))) cs = Some (cs ! (length cs - 2))"
    using d by simp
  then show ?thesis by (simp add: raw_dict_lookup)
qed

lemma parse_singleline_row_dom:
  assumes "parse_singleline_row line cols = Inr r"
  shows "dom r = {''local'', ''remote'', ''status''}"
proof -
  from assms obtain a b c where "r = [''local'' \<mapsto> a, ''remote'' \<mapsto> b, ''status'' \<mapsto> c]"
    unfolding parse_singleline_row_eq by (auto split: option.splits)
  then show ?thesis by auto
qed

text \<open>
  Claim C3, amended. In a table body from which the table is built, a line \<open>cur\<close> that does
  not begin with a space and is followed by a line \<open>nxt\<close> that begins with a space gives
  exactly one row \<open>r\<close>: the rows of the table are the rows of the lines before \<open>cur\<close>, then
  \<open>r\<close>, then the rows of the lines after \<open>nxt\<close>, and there are as many rows as lines that
  do not begin with a space, so a line that begins with a space never starts a row. There
  are at least two columns, and \<open>r\<close> is extracted from \<open>cur + ' ' + strip(nxt)\<close> with the
  layout in which the end of the second-to-last column is \<open>len(cur)\<close> and the start of the
  last column is \<open>len(cur) + 1\<close>. With this layout the value extracted for the last column
  is \<open>strip(nxt)\<close> alone when the end of that column is unset, and the value extracted for
  the second-to-last column is the trimmed text of \<open>cur\<close> from the start of that column,
  when it is not negative, to the end of \<open>cur\<close>. The row has exactly the fields \<^verbatim>\<open>local\<close>,
  \<^verbatim>\<open>remote\<close>, \<^verbatim>\<open>status\<close>, each the value extracted for the column titled \<^verbatim>\<open>Local\<close>,
  \<^verbatim>\<open>Remote\<close>, \<^verbatim>\<open>Status\<close> (the last column of that title). So the value of the last column
  is a field of the row only when its title is one of these three, and then that field is
  \<open>strip(nxt)\<close>; likewise the value of the second-to-last column, when its title is one of
  the three and differs from the title of the last column.
\<close>

theorem two_line_row:
  assumes "\<not> startswith cur '' ''" and "startswith nxt '' ''"
    and "build_net_use_table_from_parts columns (pre @ cur # nxt # post) = Inr t"
  shows "\<exists>t1 r t2 custom.
      build_net_use_table_from_parts columns pre = Inr t1
    \<and> build_net_use_table_from_parts columns post = Inr t2
    \<and> rows t = rows t1 @ r # rows t2
    \<and> length (rows t) = length (filter (\<lambda>l. \<not> startswith l '' '') (pre @ cur # nxt # post))
    \<and> 2 \<le> length columns
    \<and> custom = columns[length columns - 2 :=
                   (columns ! (length columns - 2))\<lparr>end_idx := Some (int (length cur))\<rparr>,
                 length columns - 1 :=
                   (columns ! (length columns - 1))\<lparr>start := int (length cur) + 1\<rparr>]
    \<and> parse_singleline_row (cur @ '' '' @ strip nxt) custom = Inr r
    \<and> dom r = {''local'', ''remote'', ''status''}
    \<and> (\<forall>(raw, std)\<in>set MAP_RAW_COLUMNS_TO_STANDARD_COLUMNS.
          r std = raw_dict (cur @ '' '' @ strip nxt) custom raw)
    \<and> (end_idx (last columns) = None \<longrightarrow>
          column_extract (last custom) (cur @ '' '' @ strip nxt) = strip nxt
          \<and> raw_dict (cur @ '' '' @ strip nxt) custom (name (last columns)) = Some (strip nxt)
          \<and> (\<forall>(raw, std)\<in>set MAP_RAW_COLUMNS_TO_STANDARD_COLUMNS.
                name (last columns) = raw \<longrightarrow> r std = Some (strip nxt)))
    \<and> (0 \<le> start (columns ! (length columns - 2)) \<longrightarrow>
          column_extract (custom ! (length columns - 2)) (cur @ '' '' @ strip nxt)
            = strip (slice cur (start (columns ! (length columns - 2))) None)
          \<and> (\<forall>(raw, std)\<in>set MAP_RAW_COLUMNS_TO_STANDARD_COLUMNS.
                name (columns ! (length columns - 2)) = raw \<and> name (last columns) \<noteq> raw \<longrightarrow>
                r std = Some (strip (slice cur (start (columns ! (length columns - 2))) None))))"
proof -
  let ?n = "length columns"
  let ?cs = "columns[?n - 2 := (columns ! (?n - 2))\<lparr>end_idx := Some (int (length cur))\<rparr>,
                     ?n - 1 := (columns ! (?n - 1))\<lparr>start := int (length cur) + 1\<rparr>]"
  let ?syn = "cur @ '' '' @ strip nxt"
  let ?P = "zip pre (drop 1 pre @ [cur])"
  let ?Q = "zip post (drop 1 post @ [[]])"
  let ?x = "case post of [] \<Rightarrow> [] | z # _ \<Rightarrow> z"
  have pairs: "zip (pre @ cur # nxt # post) (drop 1 (pre @ cur # nxt # post) @ [[]])
      = ?P @ (cur, nxt) # (nxt, ?x) # ?Q"
    unfolding zip_next_append [of pre cur "nxt # post" "[]"]
    using zip_next_Cons [of cur "nxt # post" "[]"] zip_next_Cons [of nxt post "[]"] by simp
  from assms(3) have whole: "build_loop columns (?P @ (cur, nxt) # (nxt, ?x) # ?Q) new_table = Inr t"
    unfolding build_net_use_table_from_parts_def pairs .
  then obtain t1 where t1: "build_loop columns ?P new_table = Inr t1"
    "build_loop columns ((cur, nxt) # (nxt, ?x) # ?Q) t1 = Inr t"
    unfolding build_loop_append by (auto split: sum.splits)
  have pre: "build_net_use_table_from_parts columns pre = Inr t1"
    unfolding build_net_use_table_from_parts_def
    using build_loop_next_cong [OF zip_next_last [OF assms(1), of pre], of columns new_table] t1(1)
    by simp
  from t1(2) assms(1,2) obtain r where r: "parse_multiline_row cur nxt columns = Inr r"
    "build_loop columns ?Q (add_row t1 r) = Inr t"
    by (cases "parse_multiline_row cur nxt columns") simp_all
  from r(1) have n: "2 \<le> ?n"
    by (cases "?n < 2") (simp_all add: parse_multiline_row_def custom_columns_Inl)
  from r(1) have single: "parse_singleline_row ?syn ?cs = Inr r"
    by (simp add: parse_multiline_row_def custom_columns_eq [OF n])
  from build_loop_rows [OF r(2)] obtain rs where rs: "rows t = rows (add_row t1 r) @ rs"
    "\<forall>u. build_loop columns ?Q u = Inr (u\<lparr>rows := rows u @ rs\<rparr>)"
    by blast
  have post: "build_net_use_table_from_parts columns post = Inr \<lparr>rows = rs\<rparr>"
    unfolding build_net_use_table_from_parts_def using rs(2) by (simp add: new_table_def)
  have rows: "rows t = rows t1 @ r # rows \<lparr>rows = rs\<rparr>"
    using rs(1) by (simp add: add_row_def)
  have count: "length (rows t) = length (filter (\<lambda>l. \<not> startswith l '' '') (pre @ cur # nxt # post))"
    using assms(3) by (rule build_row_count)
  have dom: "dom r = {''local'', ''remote'', ''status''}"
    using single by (rule parse_singleline_row_dom)
  have look: "\<forall>(raw, std)\<in>set MAP_RAW_COLUMNS_TO_STANDARD_COLUMNS. r std = raw_dict ?syn ?cs raw"
    using parse_singleline_row_lookup [OF single] by blast
  have len: "length ?cs = ?n" by simp
  have ne: "?n - 2 \<noteq> ?n - 1" using n by arith
  have lastcs: "last ?cs = (last columns)\<lparr>start := int (length cur) + 1\<rparr>"
  proof -
    have "columns \<noteq> []" "?cs \<noteq> []" using n by auto
    then have "last ?cs = ?cs ! (?n - 1)" "last columns = columns ! (?n - 1)"
      by (simp_all add: last_conv_nth)
    moreover have "?cs ! (?n - 1) = (columns ! (?n - 1))\<lparr>start := int (length cur) + 1\<rparr>"
      using n by simp
    ultimately show ?thesis by simp
  qed
  have last_part: "column_extract (last ?cs) ?syn = strip nxt
          \<and> raw_dict ?syn ?cs (name (last columns)) = Some (strip nxt)
          \<and> (\<forall>(raw, std)\<in>set MAP_RAW_COLUMNS_TO_STANDARD_COLUMNS.
                name (last columns) = raw \<longrightarrow> r std = Some (strip nxt))"
    if e: "end_idx (last columns) = None"
  proof -
    have x: "column_extract (last ?cs) ?syn = strip nxt"
      unfolding lastcs column_extract_def using e slice_tail [of cur "strip nxt"]
      by (simp add: strip_strip)
    have y: "raw_dict ?syn ?cs (name (last columns)) = Some (strip nxt)"
      using n e by (rule custom_last)
    have "r std = Some (strip nxt)"
      if "(raw, std) \<in> set MAP_RAW_COLUMNS_TO_STANDARD_COLUMNS" "name (last columns) = raw"
      for raw std
      using parse_singleline_row_lookup [OF single that(1)] y that(2) by simp
    with x y show ?thesis by blast
  qed
  have second_part: "column_extract (?cs ! (?n - 2)) ?syn
            = strip (slice cur (start (columns ! (?n - 2))) None)
          \<and> (\<forall>(raw, std)\<in>set MAP_RAW_COLUMNS_TO_STANDARD_COLUMNS.
                name (columns ! (?n - 2)) = raw \<and> name (last columns) \<noteq> raw \<longrightarrow>
                r std = Some (strip (slice cur (start (columns ! (?n - 2))) None)))"
    if s: "0 \<le> start (columns ! (?n - 2))"
  proof -
    note sl = custom_second_last(1) [OF n s, of cur "strip nxt"]
      custom_second_last(2) [OF n s, of cur]
    have "r std = Some (strip (slice cur (start (columns ! (?n - 2))) None))"
      if m: "(raw, std) \<in> set MAP_RAW_COLUMNS_TO_STANDARD_COLUMNS"
        and t: "name (columns ! (?n - 2)) = raw" "name (last columns) \<noteq> raw"
      for raw std
    proof -
      have "name (last ?cs) \<noteq> name (?cs ! (length ?cs - 2))"
        unfolding len sl(2) lastcs using t by simp
      moreover have "2 \<le> length ?cs" using n by simp
      ultimately have "raw_dict ?syn ?cs (name (?cs ! (length ?cs - 2)))
           = Some (column_extract (?cs ! (length ?cs - 2)) ?syn)"
        by (intro raw_dict_second_last)
      then have "raw_dict ?syn ?cs raw = Some (strip (slice cur (start (columns ! (?n - 2))) None))"
        unfolding len sl t(1) .
      with parse_singleline_row_lookup [OF single m] show ?thesis by simp
    qed
    with sl(1) show ?thesis by blast
  qed
  have lp: "end_idx (last columns) = None \<longrightarrow>
          column_extract (last ?cs) ?syn = strip nxt
          \<and> raw_dict ?syn ?cs (name (last columns)) = Some (strip nxt)
          \<and> (\<forall>(raw, std)\<in>set MAP_RAW_COLUMNS_TO_STANDARD_COLUMNS.
                name (last columns) = raw \<longrightarrow> r std = Some (strip nxt))"
    by (rule impI, rule last_part)
  have sp: "0 \<le> start (columns ! (?n - 2)) \<longrightarrow>
          column_extract (?cs ! (?n - 2)) ?syn
            = strip (slice cur (start (columns ! (?n - 2))) None)
          \<and> (\<forall>(raw, std)\<in>set MAP_RAW_COLUMNS_TO_STANDARD_COLUMNS.
                name (columns ! (?n - 2)) = raw \<and> name (last columns) \<noteq> raw \<longrightarrow>
                r std = Some (strip (slice cur (start (columns ! (?n - 2))) None)))"
    by (rule impI, rule second_part)
  show ?thesis
    apply (rule exI [where x = t1])
    apply (rule exI [where x = r])
    apply (rule exI [where x = "\<lparr>rows = rs\<rparr>"])
    apply (rule exI [where x = ?cs])
    apply (intro conjI)
              apply (rule pre)
             apply (rule post)
            apply (rule rows)
           apply (rule count)
          apply (rule n)
         apply (rule refl)
        apply (rule single)
       apply (rule dom)
      apply (rule look)
     apply (rule lp)
    apply (rule sp)
    done
qed

theorem two_line_row_witness:
  "\<exists>t1 r t2.
      build_net_use_table_from_parts
        [\<lparr>name = ''Local'', start = 0, end_idx = Some 5\<rparr>,
         \<lparr>name = ''Status'', start = 6, end_idx = Some 12\<rparr>,
         \<lparr>name = ''Remote'', start = 13, end_idx = None\<rparr>] [''Y:    OK     xyz''] = Inr t1
    \<and> build_net_use_table_from_parts
        [\<lparr>name = ''Local'', start = 0, end_idx = Some 5\<rparr>,
         \<lparr>name = ''Status'', start = 6, end_idx = Some 12\<rparr>,
         \<lparr>name = ''Remote'', start = 13, end_idx = None\<rparr>] [] = Inr t2
    \<and> [[''local'' \<mapsto> ''Y:'', ''remote'' \<mapsto> ''xyz'', ''status'' \<mapsto> ''OK''],
        [''local'' \<mapsto> ''Z:'', ''remote'' \<mapsto> ''def'', ''status'' \<mapsto> ''OK'']]
        = rows t1 @ r # rows t2
    \<and> r ''remote'' = Some ''def''
    \<and> r ''status'' = Some ''OK''"
proof -
  let ?cols = "[\<lparr>name = ''Local'', start = 0, end_idx = Some 5\<rparr>,
         \<lparr>name = ''Status'', start = 6, end_idx = Some 12\<rparr>,
         \<lparr>name = ''Remote'', start = 13, end_idx = None\<rparr>]"
  let ?t = "\<lparr>rows = [[''local'' \<mapsto> ''Y:'', ''remote'' \<mapsto> ''xyz'', ''status'' \<mapsto> ''OK''],
        [''local'' \<mapsto> ''Z:'', ''remote'' \<mapsto> ''def'', ''status'' \<mapsto> ''OK'']]\<rparr>"
  let ?cur = "''Z:    OK''"
  let ?nxt = "''             def''"
  let ?syn = "?cur @ '' '' @ strip ?nxt"
  have h1: "\<not> startswith ?cur '' ''" by (simp add: startswith_def)
  have h2: "startswith ?nxt '' ''" by (simp add: startswith_def)
  have h3: "build_net_use_table_from_parts ?cols
      ([''Y:    OK     xyz''] @ ?cur # ?nxt # []) = Inr ?t"
    by (simp add: eval_defs)
  from two_line_row [OF h1 h2 h3] obtain t1 r t2 custom where
    a: "build_net_use_table_from_parts ?cols [''Y:    OK     xyz''] = Inr t1"
    and b: "build_net_use_table_from_parts ?cols [] = Inr t2"
    and c: "rows ?t = rows t1 @ r # rows t2"
    and d: "end_idx (last ?cols) = None \<longrightarrow>
          column_extract (last custom) ?syn = strip ?nxt
          \<and> raw_dict ?syn custom (name (last ?cols)) = Some (strip ?nxt)
          \<and> (\<forall>(raw, std)\<in>set MAP_RAW_COLUMNS_TO_STANDARD_COLUMNS.
                name (last ?cols) = raw \<longrightarrow> r std = Some (strip ?nxt))"
    and e: "0 \<le> start (?cols ! (length ?cols - 2)) \<longrightarrow>
          column_extract (custom ! (length ?cols - 2)) ?syn
            = strip (slice ?cur (start (?cols ! (length ?cols - 2))) None)
          \<and> (\<forall>(raw, std)\<in>set MAP_RAW_COLUMNS_TO_STANDARD_COLUMNS.
                name (?cols ! (length ?cols - 2)) = raw \<and> name (last ?cols) \<noteq> raw \<longrightarrow>
                r std = Some (strip (slice ?cur (start (?cols ! (length ?cols - 2))) None)))"
    by (elim exE conjE) (rule that, assumption+)
  from d have "r ''remote'' = Some ''def''"
    by (simp add: MAP_RAW_COLUMNS_TO_STANDARD_COLUMNS_def strip_def lstrip_def rstrip_def isspace_def)
  moreover from e have "r ''status'' = Some ''OK''"
    by (simp add: MAP_RAW_COLUMNS_TO_STANDARD_COLUMNS_def strip_def lstrip_def rstrip_def isspace_def
        slice_def clip_def)
  ultimately show ?thesis using a b c by auto
qed

text \<open>
  Claim C3 as stated fails twice. The last field of a two-line row is the trimmed second
  line alone: below, the first line has \<^verbatim>\<open>abc\<close> from the start of the last column on, the
  claim gives the last field \<^verbatim>\<open>abc def\<close>, and the code gives \<^verbatim>\<open>def\<close>, with \<^verbatim>\<open>abc\<close> in the
  second-to-last field. And the test for a continuation line is on a leading space, not on
  leading whitespace: a second line that begins with a tab starts a row of its own.
\<close>

theorem two_line_row_last_field:
  "build_net_use_table_from_parts
      [\<lparr>name = ''Local'', start = 0, end_idx = Some 5\<rparr>,
       \<lparr>name = ''Status'', start = 6, end_idx = Some 12\<rparr>,
       \<lparr>name = ''Remote'', start = 13, end_idx = None\<rparr>]
      [''Z:    OK     abc'', ''   def'']
     = Inr \<lparr>rows = [[''local'' \<mapsto> ''Z:'', ''remote'' \<mapsto> ''def'', ''status'' \<mapsto> ''OK     abc'']]\<rparr>
   \<and> strip (slice ''Z:    OK     abc'' 13 None @ '' '' @ strip ''   def'') = ''abc def''
   \<and> isspace (CHR 0x09)
   \<and> build_net_use_table_from_parts
      [\<lparr>name = ''Local'', start = 0, end_idx = Some 5\<rparr>,
       \<lparr>name = ''Status'', start = 6, end_idx = Some 12\<rparr>,
       \<lparr>name = ''Remote'', start = 13, end_idx = None\<rparr>]
      [''Z:    OK     abc'', CHR 0x09 # ''  def'']
     = Inr \<lparr>rows = [[''local'' \<mapsto> ''Z:'', ''remote'' \<mapsto> ''abc'', ''status'' \<mapsto> ''OK''],
                    [''local'' \<mapsto> ''de'', ''remote'' \<mapsto> '''', ''status'' \<mapsto> '''']]\<rparr>"
  by (simp add: eval_defs)

section \<open>The columns after a row of two lines\<close>

lemma deepcopy_loop_frame:
  "deepcopy_loop rs memo h = (rs', h') \<Longrightarrow> N \<le> length h \<Longrightarrow>
   (\<forall>(a, b)\<in>set memo. N \<le> b \<and> b < length h) \<Longrightarrow>
     take (length h) h' = h \<and> length h \<le> length h'
     \<and> (\<forall>r\<in>set rs'. N \<le> r \<and> r < length h') \<and> length rs' = length rs"
proof (induction rs arbitrary: memo h rs' h')
  case Nil
  then show ?case by simp
next
  case (Cons r rs)
  show ?case
  proof (cases "map_of memo r")
    case (Some r')
    obtain rs'' h'' where rec: "deepcopy_loop rs memo h = (rs'', h'')"
      by (cases "deepcopy_loop rs memo h")
    with Cons.prems(1) Some have eq: "rs' = r' # rs''" "h' = h''" by simp_all
    from Some have "(r, r') \<in> set memo" by (rule map_of_SomeD)
    with Cons.prems(3) have r': "N \<le> r'" "r' < length h" by auto
    from Cons.IH [OF rec Cons.prems(2,3)] r' eq show ?thesis by auto
  next
    case None
    let ?h1 = "h @ [h ! r]"
    let ?memo = "(r, length h) # memo"
    obtain rs'' h'' where rec: "deepcopy_loop rs ?memo ?h1 = (rs'', h'')"
      by (cases "deepcopy_loop rs ?memo ?h1")
    with Cons.prems(1) None have eq: "rs' = length h # rs''" "h' = h''"
      by (simp_all add: alloc_def)
    have n: "N \<le> length ?h1" using Cons.prems(2) by simp
    have m: "\<forall>(a, b)\<in>set ?memo. N \<le> b \<and> b < length ?h1"
      using Cons.prems(2,3) by auto
    from Cons.IH [OF rec n m] have ih: "take (length ?h1) h'' = ?h1" "length ?h1 \<le> length h''"
      "\<forall>r\<in>set rs''. N \<le> r \<and> r < length h''" "length rs'' = length rs"
      by simp_all
    have "take (length h) h'' = take (length h) (take (length ?h1) h'')" by simp
    also have "\<dots> = h" unfolding ih(1) by simp
    finally have "take (length h) h'' = h" .
    with ih Cons.prems(2) eq show ?thesis by auto
  qed
qed

lemma deepcopy_loop_fresh:
  "distinct rs \<Longrightarrow> set rs \<inter> fst ` set memo = {} \<Longrightarrow> \<forall>r\<in>set rs. r < length h \<Longrightarrow>
     deepcopy_loop rs memo h = ([length h ..< length h + length rs], h @ map (\<lambda>r. h ! r) rs)"
proof (induction rs arbitrary: memo h)
  case Nil
  then show ?case by simp
next
  case (Cons r rs)
  let ?h1 = "h @ [h ! r]"
  let ?memo = "(r, length h) # memo"
  from Cons.prems(2) have "r \<notin> fst ` set memo" by auto
  then have none: "map_of memo r = None" by (simp add: map_of_eq_None_iff)
  have d: "distinct rs" using Cons.prems(1) by simp
  have i: "set rs \<inter> fst ` set ?memo = {}" using Cons.prems(1,2) by auto
  have v: "\<forall>r\<in>set rs. r < length ?h1" using Cons.prems(3) by auto
  have same: "map (\<lambda>r. ?h1 ! r) rs = map (\<lambda>r. h ! r) rs"
    using Cons.prems(3) by (simp add: nth_append)
  from Cons.IH [OF d i v] have rec: "deepcopy_loop rs ?memo ?h1 =
      ([Suc (length h) ..< Suc (length h) + length rs], ?h1 @ map (\<lambda>r. h ! r) rs)"
    unfolding same by simp
  have "[length h ..< length h + length (r # rs)] = length h # [Suc (length h) ..< Suc (length h) + length rs]"
    by (subst upt_rec) simp
  then show ?case
    using none rec by (simp add: alloc_def)
qed

lemma map_nth_fresh:
  "map (\<lambda>r. (h @ ws) ! r) [length h ..< length h + length ws] = ws"
proof (rule nth_equalityI)
  show "length (map (\<lambda>r. (h @ ws) ! r) [length h ..< length h + length ws]) = length ws"
    by simp
next
  fix i
  assume "i < length (map (\<lambda>r. (h @ ws) ! r) [length h ..< length h + length ws])"
  then have "i < length ws" by simp
  then show "map (\<lambda>r. (h @ ws) ! r) [length h ..< length h + length ws] ! i = ws ! i"
    by (simp add: nth_append)
qed

lemma list_update_append_fresh:
  "(h @ vs)[length h + k := f ((h @ vs) ! (length h + k))] = h @ vs[k := f (vs ! k)]"
  by (simp add: list_update_append)

lemma parse_multiline_row_store_frame:
  assumes "parse_multiline_row_store line1 line2 columns h = (res, h')"
  shows "length h \<le> length h' \<and> (\<forall>a<length h. h' ! a = h ! a)"
proof -
  obtain custom h1 where dc: "deepcopy columns h = (custom, h1)"
    by (cases "deepcopy columns h")
  from deepcopy_loop_frame [OF dc [unfolded deepcopy_def], of "length h"]
  have f: "take (length h) h1 = h" "length h \<le> length h1"
    "\<forall>r\<in>set custom. length h \<le> r \<and> r < length h1" "length custom = length columns"
    by simp_all
  have old: "h1 ! a = h ! a" if "a < length h" for a
  proof -
    have "h1 ! a = take (length h) h1 ! a" using that by simp
    then show ?thesis by (simp only: f(1))
  qed
  show ?thesis
  proof (cases "length custom < 2")
    case True
    with assms dc have "h' = h1" by (simp add: parse_multiline_row_store_def Let_def)
    with f(2) old show ?thesis by simp
  next
    case False
    let ?r2 = "custom ! (length custom - 2)"
    let ?r1 = "custom ! (length custom - 1)"
    let ?h2 = "h1[?r2 := (h1 ! ?r2)\<lparr>end_idx := Some (int (length line1))\<rparr>]"
    from False assms dc have h': "h' = ?h2[?r1 := (?h2 ! ?r1)\<lparr>start := int (length line1) + 1\<rparr>]"
      by (simp add: parse_multiline_row_store_def Let_def)
    have "?r2 \<in> set custom" "?r1 \<in> set custom" using False by simp_all
    with f(3) have fresh: "length h \<le> ?r2" "length h \<le> ?r1" by blast+
    have "h' ! a = h ! a" if "a < length h" for a
      using that fresh old unfolding h' by simp
    moreover have "length h \<le> length h'" unfolding h' using f(2) by simp
    ultimately show ?thesis by blast
  qed
qed

lemma parse_multiline_row_store_result:
  assumes "distinct columns" and "\<forall>r\<in>set columns. r < length h"
  shows "fst (parse_multiline_row_store line1 line2 columns h)
           = parse_multiline_row line1 line2 (map (\<lambda>r. h ! r) columns)"
proof -
  let ?vs = "map (\<lambda>r. h ! r) columns"
  let ?n = "length columns"
  let ?N = "length h"
  have dc: "deepcopy columns h = ([?N ..< ?N + ?n], h @ ?vs)"
    unfolding deepcopy_def using deepcopy_loop_fresh [OF assms(1) _ assms(2), of "[]"] by simp
  show ?thesis
  proof (cases "?n < 2")
    case True
    then show ?thesis
      by (simp add: parse_multiline_row_store_def dc parse_multiline_row_def custom_columns_def)
  next
    case False
    then have n: "2 \<le> ?n" by simp
    let ?ws = "?vs[?n - 2 := (?vs ! (?n - 2))\<lparr>end_idx := Some (int (length line1))\<rparr>,
                   ?n - 1 := (?vs ! (?n - 1))\<lparr>start := int (length line1) + 1\<rparr>]"
    let ?r2 = "[?N ..< ?N + ?n] ! (?n - 2)"
    let ?r1 = "[?N ..< ?N + ?n] ! (?n - 1)"
    let ?h2 = "(h @ ?vs)[?r2 := ((h @ ?vs) ! ?r2)\<lparr>end_idx := Some (int (length line1))\<rparr>]"
    let ?h3 = "?h2[?r1 := (?h2 ! ?r1)\<lparr>start := int (length line1) + 1\<rparr>]"
    define k2 where "k2 = ?n - 2"
    define k1 where "k1 = ?n - 1"
    have k: "k2 < ?n" "k1 < ?n" "k2 \<noteq> k1" using n by (simp_all add: k2_def k1_def)
    have r2: "?r2 = ?N + k2" and r1: "?r1 = ?N + k1"
      using k(1,2) unfolding k2_def [symmetric] k1_def [symmetric] by simp_all
    let ?vs1 = "?vs[k2 := (?vs ! k2)\<lparr>end_idx := Some (int (length line1))\<rparr>]"
    have h2: "?h2 = h @ ?vs1"
      unfolding r2 by (rule list_update_append_fresh [of h ?vs k2 "\<lambda>c. c\<lparr>end_idx := Some (int (length line1))\<rparr>"])
    have "?h3 = h @ ?vs1[k1 := (?vs1 ! k1)\<lparr>start := int (length line1) + 1\<rparr>]"
      unfolding h2 r1 by (rule list_update_append_fresh [of h ?vs1 k1 "\<lambda>c. c\<lparr>start := int (length line1) + 1\<rparr>"])
    moreover have "?vs1 ! k1 = ?vs ! k1" using k(3) by simp
    ultimately have h3: "?h3 = h @ ?ws"
      unfolding k2_def k1_def by simp
    have "map (\<lambda>r. ?h3 ! r) [?N ..< ?N + ?n] = ?ws"
      unfolding h3 using map_nth_fresh [of h ?ws] by simp
    then have "fst (parse_multiline_row_store line1 line2 columns h)
        = parse_singleline_row (line1 @ '' '' @ strip line2) ?ws"
      using False by (simp add: parse_multiline_row_store_def dc Let_def)
    moreover have "parse_multiline_row line1 line2 ?vs
        = parse_singleline_row (line1 @ '' '' @ strip line2) ?ws"
      using custom_columns_eq [of ?vs line1] n by (simp add: parse_multiline_row_def)
    ultimately show ?thesis by simp
  qed
qed

text \<open>
  Claim C9. Let the caller's list \<open>columns\<close> hold addresses of objects of the store \<open>h\<close>.
  After \<^verbatim>\<open>parse_multiline_row\<close> has returned, leaving the store \<open>h'\<close>, every column of the
  caller's list is the object it was, with the same name, start and end, so a single-line
  row parsed afterwards with that list gives what it gave before; the two assignments went
  to new objects. When the list holds each column once, the result is that of the
  definition on column values, which the table parser above uses.
\<close>

theorem parse_multiline_row_leaves_columns:
  assumes "\<forall>r\<in>set columns. r < length h"
    and "parse_multiline_row_store line1 line2 columns h = (res, h')"
  shows "(\<forall>r\<in>set columns. r < length h' \<and> h' ! r = h ! r)
    \<and> (\<forall>line. parse_singleline_row line (map (\<lambda>r. h' ! r) columns)
                = parse_singleline_row line (map (\<lambda>r. h ! r) columns))
    \<and> (distinct columns \<longrightarrow> res = parse_multiline_row line1 line2 (map (\<lambda>r. h ! r) columns))"
proof -
  from parse_multiline_row_store_frame [OF assms(2)]
  have f: "length h \<le> length h'" "\<forall>a<length h. h' ! a = h ! a" by simp_all
  with assms(1) have a: "\<forall>r\<in>set columns. r < length h' \<and> h' ! r = h ! r" by fastforce
  then have m: "map (\<lambda>r. h' ! r) columns = map (\<lambda>r. h ! r) columns" by simp
  have b: "\<forall>line. parse_singleline_row line (map (\<lambda>r. h' ! r) columns)
                = parse_singleline_row line (map (\<lambda>r. h ! r) columns)"
    unfolding m by simp
  have c: "res = parse_multiline_row line1 line2 (map (\<lambda>r. h ! r) columns)" if "distinct columns"
    using parse_multiline_row_store_result [OF that assms(1), of line1 line2] assms(2) by simp
  from a b c show ?thesis by blast
qed

theorem parse_multiline_row_leaves_columns_witness:
  "parse_multiline_row_store ''Z:    OK'' ''             def'' [0, 1, 2]
     [\<lparr>name = ''Local'', start = 0, end_idx = Some 5\<rparr>,
      \<lparr>name = ''Status'', start = 6, end_idx = Some 12\<rparr>,
      \<lparr>name = ''Remote'', start = 13, end_idx = None\<rparr>]
   = (Inr [''local'' \<mapsto> ''Z:'', ''remote'' \<mapsto> ''def'', ''status'' \<mapsto> ''OK''],
      [\<lparr>name = ''Local'', start = 0, end_idx = Some 5\<rparr>,
       \<lparr>name = ''Status'', start = 6, end_idx = Some 12\<rparr>,
       \<lparr>name = ''Remote'', start = 13, end_idx = None\<rparr>,
       \<lparr>name = ''Local'', start = 0, end_idx = Some 5\<rparr>,
       \<lparr>name = ''Status'', start = 6, end_idx = Some 8\<rparr>,
       \<lparr>name = ''Remote'', start = 9, end_idx = None\<rparr>])
   \<and> parse_multiline_row ''Z:    OK'' ''             def''
       [\<lparr>name = ''Local'', start = 0, end_idx = Some 5\<rparr>,
        \<lparr>name = ''Status'', start = 6, end_idx = Some 12\<rparr>,
        \<lparr>name = ''Remote'', start = 13, end_idx = None\<rparr>]
     = Inr [''local'' \<mapsto> ''Z:'', ''remote'' \<mapsto> ''def'', ''status'' \<mapsto> ''OK'']"
proof -
  let ?h = "[\<lparr>name = ''Local'', start = 0, end_idx = Some 5\<rparr>,
      \<lparr>name = ''Status'', start = 6, end_idx = Some 12\<rparr>,
      \<lparr>name = ''Remote'', start = 13, end_idx = None\<rparr>]"
  let ?h' = "?h @ [\<lparr>name = ''Local'', start = 0, end_idx = Some 5\<rparr>,
       \<lparr>name = ''Status'', start = 6, end_idx = Some 8\<rparr>,
       \<lparr>name = ''Remote'', start = 9, end_idx = None\<rparr>]"
  let ?r = "[''local'' \<mapsto> ''Z:'', ''remote'' \<mapsto> ''def'', ''status'' \<mapsto> ''OK'']"
  have valid: "\<forall>r\<in>set [0, 1, 2 :: nat]. r < length ?h" by simp
  have run: "parse_multiline_row_store ''Z:    OK'' ''             def'' [0, 1, 2] ?h = (Inr ?r, ?h')"
    by (simp add: parse_multiline_row_store_def deepcopy_def alloc_def eval_defs)
  from parse_multiline_row_leaves_columns [OF valid run]
  have "distinct [0, 1, 2 :: nat] \<longrightarrow>
      Inr ?r = parse_multiline_row ''Z:    OK'' ''             def'' (map (\<lambda>r. ?h ! r) [0, 1, 2])"
    by (elim conjE)
  then have "parse_multiline_row ''Z:    OK'' ''             def'' ?h = Inr ?r" by simp
  with run show ?thesis by simp
qed

section \<open>Parsing addresses and credentials\<close>

lemma tests_pass_creds:
  "list_all (\<lambda>(s, c). get_creds_from_string s = c) test_get_creds_from_string"
  by (simp add: test_get_creds_from_string_def get_creds_from_string_def)

lemma tests_pass_directory:
  "list_all (\<lambda>(s, d). get_unc_directory_from_string s = d) test_get_unc_directory_from_string"
  by (simp add: test_get_unc_directory_from_string_def get_unc_directory_from_string_def
      get_creds_from_string_def startswith_def)

lemma split_first_colon:
  assumes "CHR '':'' \<in> set s"
  shows "s = takeWhile (\<lambda>c. c \<noteq> CHR '':'') s @ CHR '':'' # drop 1 (dropWhile (\<lambda>c. c \<noteq> CHR '':'') s)"
proof (cases "dropWhile (\<lambda>c. c \<noteq> CHR '':'') s")
  case Nil
  then have "\<forall>c\<in>set s. c \<noteq> CHR '':''" by simp
  with assms show ?thesis by blast
next
  case (Cons c cs)
  have "\<not> c \<noteq> CHR '':''"
    using dropWhile_head [of "\<lambda>c. c \<noteq> CHR '':''" s] unfolding Cons by simp
  then have c: "c = CHR '':''" by simp
  have "s = takeWhile (\<lambda>c. c \<noteq> CHR '':'') s @ dropWhile (\<lambda>c. c \<noteq> CHR '':'') s" by simp
  then show ?thesis unfolding Cons c by simp
qed

text \<open>
  Claim C7, amended. A non-empty credential portion is split on its first colon. When it
  has a colon, the text before the first colon is the username, absent when that text is
  empty, and everything after that colon, further colons included, is the password,
  possibly empty. When it has no colon, the whole text is the username and the password is
  absent.
\<close>

theorem get_creds_from_string_split:
  assumes "s \<noteq> []"
  shows "(CHR '':'' \<in> set s \<longrightarrow>
           (\<exists>u p. s = u @ CHR '':'' # p \<and> CHR '':'' \<notin> set u
              \<and> get_creds_from_string s =
                  \<lparr>username = (if u = [] then None else Some u), password = Some p\<rparr>))
       \<and> (CHR '':'' \<notin> set s \<longrightarrow>
           get_creds_from_string s = \<lparr>username = Some s, password = None\<rparr>)"
proof (cases "CHR '':'' \<in> set s")
  case True
  let ?u = "takeWhile (\<lambda>c. c \<noteq> CHR '':'') s"
  let ?p = "drop 1 (dropWhile (\<lambda>c. c \<noteq> CHR '':'') s)"
  have "s = ?u @ CHR '':'' # ?p" using True by (rule split_first_colon)
  moreover have "CHR '':'' \<notin> set ?u" by (auto dest: set_takeWhileD)
  moreover have "get_creds_from_string s =
      \<lparr>username = (if ?u = [] then None else Some ?u), password = Some ?p\<rparr>"
    using True by (simp add: get_creds_from_string_def Let_def)
  ultimately show ?thesis using True by blast
next
  case False
  with assms show ?thesis by (simp add: get_creds_from_string_def)
qed

theorem get_creds_from_string_split_witness:
  "get_creds_from_string ''user::'' = \<lparr>username = Some ''user'', password = Some '':''\<rparr>
   \<and> get_creds_from_string ''user'' = \<lparr>username = Some ''user'', password = None\<rparr>"
  using get_creds_from_string_split [of "''user::''"] get_creds_from_string_split [of "''user''"]
  by (simp add: get_creds_from_string_def)

text \<open>
  Claim C7 as stated fails: an empty text before a colon gives an absent username, not the
  empty string. This is the assertion of \<^verbatim>\<open>test_get_creds_from_string\<close> for \<^verbatim>\<open>':pass'\<close>.
\<close>

theorem get_creds_from_string_empty_username:
  "('':pass'', \<lparr>username = None, password = Some ''pass''\<rparr>) \<in> set test_get_creds_from_string
   \<and> get_creds_from_string '':pass'' = \<lparr>username = None, password = Some ''pass''\<rparr>
   \<and> username (get_creds_from_string '':pass'') \<noteq> Some ''''"
  by (simp add: test_get_creds_from_string_def get_creds_from_string_def)

lemma rfind_None:
  "rfind s sub = None \<Longrightarrow> j \<le> length s \<Longrightarrow> \<not> startswith (drop j s) sub"
proof (induction s arbitrary: j)
  case Nil
  then show ?case by (simp add: startswith_def split: if_splits)
next
  case (Cons c cs)
  from Cons.prems(1) have n: "rfind cs sub = None" "\<not> startswith (c # cs) sub"
    by (simp_all split: option.splits if_splits)
  show ?case
  proof (cases j)
    case 0
    with n(2) show ?thesis by simp
  next
    case (Suc j')
    with Cons.prems(2) Cons.IH [OF n(1), of j'] show ?thesis by simp
  qed
qed

lemma rfind_Some:
  "rfind s sub = Some i \<Longrightarrow>
     i \<le> length s \<and> startswith (drop i s) sub
     \<and> (\<forall>j. i < j \<and> j \<le> length s \<longrightarrow> \<not> startswith (drop j s) sub)"
proof (induction s arbitrary: i)
  case Nil
  then show ?case by (simp add: startswith_def split: if_splits)
next
  case (Cons c cs)
  show ?case
  proof (cases "rfind cs sub")
    case None
    with Cons.prems have i: "i = 0" "startswith (c # cs) sub" by (simp_all split: if_splits)
    have "\<not> startswith (drop j (c # cs)) sub" if "0 < j" "j \<le> length (c # cs)" for j
    proof -
      from that obtain j' where "j = Suc j'" "j' \<le> length cs" by (cases j) simp_all
      with rfind_None [OF None, of j'] show ?thesis by simp
    qed
    with i show ?thesis by simp
  next
    case (Some i')
    with Cons.prems have i: "i = Suc i'" by simp
    from Cons.IH [OF Some] have ih: "i' \<le> length cs" "startswith (drop i' cs) sub"
      "\<forall>j. i' < j \<and> j \<le> length cs \<longrightarrow> \<not> startswith (drop j cs) sub"
      by simp_all
    have "\<not> startswith (drop j (c # cs)) sub" if "i < j" "j \<le> length (c # cs)" for j
    proof -
      from that i obtain j' where "j = Suc j'" "i' < j'" "j' \<le> length cs" by (cases j) simp_all
      with ih(3) show ?thesis by simp
    qed
    with i ih(1,2) show ?thesis by simp
  qed
qed

lemma contains_iff:
  "contains s sub \<longleftrightarrow> (\<exists>j\<le>length s. startswith (drop j s) sub)"
proof (induction s)
  case Nil
  then show ?case by (auto simp: startswith_def)
next
  case (Cons c cs)
  show ?case
  proof
    assume "contains (c # cs) sub"
    then consider "startswith (c # cs) sub" | "contains cs sub" by auto
    then show "\<exists>j\<le>length (c # cs). startswith (drop j (c # cs)) sub"
    proof cases
      case 1
      then have "startswith (drop 0 (c # cs)) sub" by simp
      then show ?thesis by blast
    next
      case 2
      with Cons.IH obtain j where "j \<le> length cs" "startswith (drop j cs) sub" by blast
      then have "Suc j \<le> length (c # cs)" "startswith (drop (Suc j) (c # cs)) sub" by simp_all
      then show ?thesis by blast
    qed
  next
    assume "\<exists>j\<le>length (c # cs). startswith (drop j (c # cs)) sub"
    then obtain j where j: "j \<le> length (c # cs)" "startswith (drop j (c # cs)) sub" by blast
    show "contains (c # cs) sub"
    proof (cases j)
      case 0
      with j show ?thesis by simp
    next
      case (Suc j')
      with j have "j' \<le> length cs" "startswith (drop j' cs) sub" by simp_all
      with Cons.IH show ?thesis by auto
    qed
  qed
qed

lemma startswith_at_unc:
  assumes "startswith t [CHR ''@'', BSL, BSL]"
  shows "\<exists>rest. t = CHR ''@'' # BSL # BSL # rest"
proof -
  let ?sub = "[CHR ''@'', BSL, BSL]"
  from assms have "take (length ?sub) t = ?sub" by (simp only: startswith_def)
  moreover have "t = take (length ?sub) t @ drop (length ?sub) t" by simp
  ultimately have "t = ?sub @ drop (length ?sub) t" by simp
  then have "t = CHR ''@'' # BSL # BSL # drop (length ?sub) t" by simp
  then show ?thesis by (rule exI)
qed

text \<open>
  Claim C2. Every address string either contains an \<^verbatim>\<open>@\<close> immediately followed by the UNC
  prefix, and then it is a credential portion, an \<^verbatim>\<open>@\<close> and a path, where the path begins
  with the UNC prefix and contains no further \<^verbatim>\<open>@\<close> followed by the prefix (the split is
  at the rightmost such \<^verbatim>\<open>@\<close>), and the result has this path and the credentials parsed
  from the credential portion; or it contains none, and then the whole string is the path
  and username and password are absent. The address \<^verbatim>\<open>user::@\\@\\path\<close> gives the path
  \<^verbatim>\<open>\\path\<close>, the username \<^verbatim>\<open>user\<close> and the password \<^verbatim>\<open>:@\\\<close>.
\<close>

theorem get_unc_directory_from_string_split:
  "((contains s [CHR ''@'', BSL, BSL]
      \<and> (\<exists>c p. s = c @ CHR ''@'' # p \<and> startswith p [BSL, BSL]
            \<and> \<not> contains p [CHR ''@'', BSL, BSL]
            \<and> get_unc_directory_from_string s = \<lparr>path = p, creds = get_creds_from_string c\<rparr>))
    \<or> (\<not> contains s [CHR ''@'', BSL, BSL]
      \<and> get_unc_directory_from_string s =
          \<lparr>path = s, creds = \<lparr>username = None, password = None\<rparr>\<rparr>))
   \<and> get_unc_directory_from_string (''user::@'' @ BSL # BSL # ''@'' @ BSL # BSL # ''path'')
       = \<lparr>path = BSL # BSL # ''path'',
          creds = \<lparr>username = Some ''user'', password = Some ('':@'' @ [BSL, BSL])\<rparr>\<rparr>"
proof -
  let ?sub = "[CHR ''@'', BSL, BSL]"
  have general: "(contains s ?sub
      \<and> (\<exists>c p. s = c @ CHR ''@'' # p \<and> startswith p [BSL, BSL]
            \<and> \<not> contains p ?sub
            \<and> get_unc_directory_from_string s = \<lparr>path = p, creds = get_creds_from_string c\<rparr>))
    \<or> (\<not> contains s ?sub
      \<and> get_unc_directory_from_string s =
          \<lparr>path = s, creds = \<lparr>username = None, password = None\<rparr>\<rparr>)"
  proof (cases "rfind s ?sub")
    case None
    then have "\<not> contains s ?sub"
      using rfind_None [of s ?sub] by (auto simp: contains_iff)
    moreover have "get_unc_directory_from_string s =
          \<lparr>path = s, creds = \<lparr>username = None, password = None\<rparr>\<rparr>"
      using None by (simp add: get_unc_directory_from_string_def)
    ultimately show ?thesis by blast
  next
    case (Some i)
    from rfind_Some [OF Some] have i: "i \<le> length s" "startswith (drop i s) ?sub"
      "\<forall>j. i < j \<and> j \<le> length s \<longrightarrow> \<not> startswith (drop j s) ?sub"
      by simp_all
    from startswith_at_unc [OF i(2)] obtain rest where rest: "drop i s = CHR ''@'' # BSL # BSL # rest"
      by blast
    have p: "drop (Suc i) s = BSL # BSL # rest"
      using rest by (metis drop_Suc list.sel(3) tl_drop)
    have "s = take i s @ drop i s" by simp
    then have split: "s = take i s @ CHR ''@'' # drop (Suc i) s"
      unfolding rest p by simp
    have sw: "startswith (drop (Suc i) s) [BSL, BSL]"
      unfolding p by (simp add: startswith_def)
    have nc: "\<not> contains (drop (Suc i) s) ?sub"
    proof
      assume "contains (drop (Suc i) s) ?sub"
      then obtain j where j: "j \<le> length (drop (Suc i) s)" "startswith (drop j (drop (Suc i) s)) ?sub"
        unfolding contains_iff by blast
      have len: "Suc i \<le> length s" using rest i(1) by (cases "i = length s") simp_all
      have "startswith (drop (j + Suc i) s) ?sub" using j(2) by simp
      moreover have "i < j + Suc i" "j + Suc i \<le> length s" using j(1) len by simp_all
      ultimately show False using i(3) by blast
    qed
    have c: "contains s ?sub" unfolding contains_iff using i(1,2) by blast
    have "get_unc_directory_from_string s =
        \<lparr>path = drop (Suc i) s, creds = get_creds_from_string (take i s)\<rparr>"
      using Some by (simp add: get_unc_directory_from_string_def)
    with c split sw nc show ?thesis by blast
  qed
  have example: "get_unc_directory_from_string (''user::@'' @ BSL # BSL # ''@'' @ BSL # BSL # ''path'')
       = \<lparr>path = BSL # BSL # ''path'',
          creds = \<lparr>username = Some ''user'', password = Some ('':@'' @ [BSL, BSL])\<rparr>\<rparr>"
    by (simp add: get_unc_directory_from_string_def get_creds_from_string_def startswith_def)
  from general example show ?thesis by (rule conjI)
qed

theorem get_unc_directory_from_string_split_witness:
  "get_unc_directory_from_string (''user:pass@'' @ BSL # BSL # ''path'')
     = \<lparr>path = BSL # BSL # ''path'',
        creds = \<lparr>username = Some ''user'', password = Some ''pass''\<rparr>\<rparr>
   \<and> contains (''user:pass@'' @ BSL # BSL # ''path'') [CHR ''@'', BSL, BSL]"
  using get_unc_directory_from_string_split [of "''user:pass@'' @ BSL # BSL # ''path''"]
  by (simp add: get_unc_directory_from_string_def get_creds_from_string_def startswith_def)


end
